theory Spec2Isabelle
  imports Complex_Main "HOL-Library.Word" "HOL-Library.Char_ord" "HOL-Library.List_Lexorder"
    "HOL-Library.Multiset"
begin

section \<open>Records and keys\<close>

text \<open>
  \<^verbatim>\<open>struct Object { size_t id; std::string name; double value; }\<close>.
  The identifier is a 64-bit unsigned integer (LP64). A \<^verbatim>\<open>std::string\<close> is a
  sequence of bytes, here a \<^typ>\<open>char list\<close>; its \<^verbatim>\<open>operator<\<close> compares
  bytes as unsigned values, lexicographically, a proper prefix being smaller: that is
  the order of \<^theory_text>\<open>List_Lexorder\<close> over \<^theory_text>\<open>Char_ord\<close>.
  The payload \<^verbatim>\<open>value\<close> is only stored and copied by the lookup structures, never
  computed with or compared; a real number stands for it.
\<close>

record Object =
  obj_id :: "64 word"
  name :: string
  obj_value :: real

section \<open>Linear scan\<close>

text \<open>\<^verbatim>\<open>linearSearch\<close>: the loop over \<^verbatim>\<open>data\<close>, pushing every match onto the result.\<close>

fun linearSearch_loop :: "Object list \<Rightarrow> string \<Rightarrow> Object list \<Rightarrow> Object list" where
  "linearSearch_loop [] k result = result"
| "linearSearch_loop (obj # data) k result =
     linearSearch_loop data k (if name obj = k then result @ [obj] else result)"

definition linearSearch :: "Object list \<Rightarrow> string \<Rightarrow> Object list" where
  "linearSearch data k = linearSearch_loop data k []"

section \<open>Ordered tree: \<^verbatim>\<open>BinarySearchTree\<close>\<close>

text \<open>
  A node owns its two children and nothing else points to it (there is no parent
  link), so the tree of nodes is an algebraic datatype; \<open>Null\<close> is the null pointer.
  The fields of \<open>Node\<close> are \<^verbatim>\<open>key\<close>, \<^verbatim>\<open>values\<close>, \<^verbatim>\<open>left\<close>, \<^verbatim>\<open>right\<close>.
\<close>

datatype BSTNode = Null | Node string "Object list" BSTNode BSTNode

text \<open>
  \<^verbatim>\<open>BinarySearchTree::insert\<close>. The loop walks down from the root with \<^verbatim>\<open>cur\<close>
  and writes either into the node it stops at or into the null child it finds; as a
  recursion this rebuilds the path. The case \<open>Null\<close> is both the empty root and the
  missing child: each gets \<^verbatim>\<open>new Node(obj.name, obj)\<close>.
\<close>

fun BST_insert :: "Object \<Rightarrow> BSTNode \<Rightarrow> BSTNode" where
  "BST_insert obj Null = Node (name obj) [obj] Null Null"
| "BST_insert obj (Node k vs l r) =
     (if name obj = k then Node k (vs @ [obj]) l r
      else if name obj < k then Node k vs (BST_insert obj l) r
      else Node k vs l (BST_insert obj r))"

text \<open>\<^verbatim>\<open>BinarySearchTree::search\<close>: the walk from the root; \<^verbatim>\<open>{}\<close> when it falls off.\<close>

fun BST_search :: "BSTNode \<Rightarrow> string \<Rightarrow> Object list" where
  "BST_search Null k = []"
| "BST_search (Node k' vs l r) k =
     (if k = k' then vs else if k < k' then BST_search l k else BST_search r k)"

text \<open>The tree the harness builds: the records inserted one by one into the empty tree.\<close>

definition BST_build :: "Object list \<Rightarrow> BSTNode" where
  "BST_build data = foldl (\<lambda>t obj. BST_insert obj t) Null data"

section \<open>Hash index: \<^verbatim>\<open>HashTable\<close>\<close>

text \<open>
  What the C++ leaves undefined is an error value of the model: a remainder by zero,
  an index outside the bucket vector, and (for the balanced tree below) a null or
  dangling pointer that is dereferenced.
\<close>

datatype error = DivisionByZero | IndexOutOfRange | NullDereference | DanglingPointer

record HashTable =
  ht_size :: "64 word"
  buckets :: "Object list list"
  collisionCount :: "64 word"

text \<open>
  The constructor stores the size, makes \<^verbatim>\<open>tableSize\<close> empty buckets and a zero
  counter. It has no check of its argument. (Failure to allocate is outside the model.)
\<close>

definition HashTable_new :: "64 word \<Rightarrow> error + HashTable" where
  "HashTable_new tableSize =
     Inr \<lparr>ht_size = tableSize, buckets = replicate (unat tableSize) [], collisionCount = 0\<rparr>"

text \<open>
  \<^verbatim>\<open>hashFunction\<close>: \<^verbatim>\<open>unsigned long h\<close> and \<^verbatim>\<open>size_t size\<close> are 64-bit words, the
  byte is read as \<^verbatim>\<open>unsigned char\<close>; \<^verbatim>\<open>h * P + c\<close> wraps, and \<^verbatim>\<open>% size\<close> with
  \<^verbatim>\<open>size == 0\<close> is undefined. The loop body does not run for the empty key.
\<close>

fun hashFunction_loop :: "64 word \<Rightarrow> string \<Rightarrow> 64 word \<Rightarrow> error + 64 word" where
  "hashFunction_loop sz [] h = Inr h"
| "hashFunction_loop sz (c # cs) h =
     (if sz = 0 then Inl DivisionByZero
      else hashFunction_loop sz cs ((h * 131 + of_char c) mod sz))"

definition hashFunction :: "HashTable \<Rightarrow> string \<Rightarrow> error + 64 word" where
  "hashFunction t k = hashFunction_loop (ht_size t) k 0"

text \<open>\<^verbatim>\<open>HashTable::insert\<close>; \<^verbatim>\<open>buckets[idx]\<close> outside the vector is undefined.\<close>

definition HashTable_insert :: "HashTable \<Rightarrow> Object \<Rightarrow> error + HashTable" where
  "HashTable_insert t obj =
     (case hashFunction t (name obj) of
        Inl e \<Rightarrow> Inl e
      | Inr idx \<Rightarrow>
          if unat idx < length (buckets t) then
            Inr (t\<lparr>collisionCount :=
                      (if buckets t ! unat idx \<noteq> [] then collisionCount t + 1
                       else collisionCount t),
                   buckets := (buckets t)[unat idx := buckets t ! unat idx @ [obj]]\<rparr>)
          else Inl IndexOutOfRange)"

text \<open>\<^verbatim>\<open>HashTable::search\<close>: the scan of one bucket.\<close>

fun bucket_scan :: "Object list \<Rightarrow> string \<Rightarrow> Object list \<Rightarrow> Object list" where
  "bucket_scan [] k result = result"
| "bucket_scan (o' # os) k result =
     bucket_scan os k (if name o' = k then result @ [o'] else result)"

definition HashTable_search :: "HashTable \<Rightarrow> string \<Rightarrow> error + Object list" where
  "HashTable_search t k =
     (case hashFunction t k of
        Inl e \<Rightarrow> Inl e
      | Inr idx \<Rightarrow>
          if unat idx < length (buckets t) then Inr (bucket_scan (buckets t ! unat idx) k [])
          else Inl IndexOutOfRange)"

definition getCollisionCount :: "HashTable \<Rightarrow> 64 word" where
  "getCollisionCount t = collisionCount t"

text \<open>The records inserted one by one, stopping at the first error.\<close>

fun HashTable_insert_all :: "HashTable \<Rightarrow> Object list \<Rightarrow> error + HashTable" where
  "HashTable_insert_all t [] = Inr t"
| "HashTable_insert_all t (obj # data) =
     (case HashTable_insert t obj of Inl e \<Rightarrow> Inl e | Inr t' \<Rightarrow> HashTable_insert_all t' data)"

definition HashTable_build :: "64 word \<Rightarrow> Object list \<Rightarrow> error + HashTable" where
  "HashTable_build tableSize data =
     (case HashTable_new tableSize of Inl e \<Rightarrow> Inl e | Inr t \<Rightarrow> HashTable_insert_all t data)"

section \<open>Balanced tree: \<^verbatim>\<open>RedBlackTree\<close>\<close>

text \<open>
  The nodes of the red-black tree point to each other in both directions (children and
  \<^verbatim>\<open>parent\<close>), and rotations rewrite these links in place, so the tree is modelled
  with an explicit store: \<open>nodes\<close> holds every node object that \<^verbatim>\<open>new\<close> has made,
  a pointer is \<open>None\<close> (null) or \<open>Some a\<close> with \<open>a\<close> the position of the object in
  the store, and \<^verbatim>\<open>new\<close> appends. Nothing is ever deleted.
\<close>

datatype Color = RED | BLACK

type_synonym ptr = "nat option"

record RBNode =
  key :: string
  vals :: "Object list"
  color :: Color
  left :: ptr
  right :: ptr
  parent :: ptr

record RedBlackTree =
  nodes :: "RBNode list"
  root :: ptr

definition RedBlackTree_new :: RedBlackTree where
  "RedBlackTree_new = \<lparr>nodes = [], root = None\<rparr>"

text \<open>Sequencing of steps that may fail.\<close>

definition seq :: "error + 'a \<Rightarrow> ('a \<Rightarrow> error + 'b) \<Rightarrow> error + 'b" where
  "seq m f = (case m of Inl e \<Rightarrow> Inl e | Inr x \<Rightarrow> f x)"

text \<open>Reading \<^verbatim>\<open>p->field\<close> and writing \<^verbatim>\<open>p->field = v\<close>.\<close>

definition load :: "RedBlackTree \<Rightarrow> ptr \<Rightarrow> error + RBNode" where
  "load t p =
     (case p of
        None \<Rightarrow> Inl NullDereference
      | Some a \<Rightarrow> if a < length (nodes t) then Inr (nodes t ! a) else Inl DanglingPointer)"

definition store :: "RedBlackTree \<Rightarrow> ptr \<Rightarrow> (RBNode \<Rightarrow> RBNode) \<Rightarrow> error + RedBlackTree" where
  "store t p f =
     (case p of
        None \<Rightarrow> Inl NullDereference
      | Some a \<Rightarrow>
          if a < length (nodes t) then Inr (t\<lparr>nodes := (nodes t)[a := f (nodes t ! a)]\<rparr>)
          else Inl DanglingPointer)"

definition get_left :: "RedBlackTree \<Rightarrow> ptr \<Rightarrow> error + ptr" where
  "get_left t p = seq (load t p) (\<lambda>n. Inr (left n))"

definition get_right :: "RedBlackTree \<Rightarrow> ptr \<Rightarrow> error + ptr" where
  "get_right t p = seq (load t p) (\<lambda>n. Inr (right n))"

definition get_parent :: "RedBlackTree \<Rightarrow> ptr \<Rightarrow> error + ptr" where
  "get_parent t p = seq (load t p) (\<lambda>n. Inr (parent n))"

definition get_color :: "RedBlackTree \<Rightarrow> ptr \<Rightarrow> error + Color" where
  "get_color t p = seq (load t p) (\<lambda>n. Inr (color n))"

definition set_left :: "RedBlackTree \<Rightarrow> ptr \<Rightarrow> ptr \<Rightarrow> error + RedBlackTree" where
  "set_left t p v = store t p (\<lambda>n. n\<lparr>left := v\<rparr>)"

definition set_right :: "RedBlackTree \<Rightarrow> ptr \<Rightarrow> ptr \<Rightarrow> error + RedBlackTree" where
  "set_right t p v = store t p (\<lambda>n. n\<lparr>right := v\<rparr>)"

definition set_parent :: "RedBlackTree \<Rightarrow> ptr \<Rightarrow> ptr \<Rightarrow> error + RedBlackTree" where
  "set_parent t p v = store t p (\<lambda>n. n\<lparr>parent := v\<rparr>)"

definition set_color :: "RedBlackTree \<Rightarrow> ptr \<Rightarrow> Color \<Rightarrow> error + RedBlackTree" where
  "set_color t p c = store t p (\<lambda>n. n\<lparr>color := c\<rparr>)"

text \<open>\<^verbatim>\<open>transplant(u, v)\<close>.\<close>

definition transplant :: "RedBlackTree \<Rightarrow> ptr \<Rightarrow> ptr \<Rightarrow> error + RedBlackTree" where
  "transplant t u v =
     seq (get_parent t u) (\<lambda>up.
     seq (if up = None then Inr (t\<lparr>root := v\<rparr>)
          else seq (get_left t up) (\<lambda>upl.
               if u = upl then set_left t up v else set_right t up v)) (\<lambda>t1.
     if v \<noteq> None then seq (get_parent t1 u) (\<lambda>up1. set_parent t1 v up1)
     else Inr t1))"

text \<open>\<^verbatim>\<open>rotateLeft(x)\<close> and \<^verbatim>\<open>rotateRight(x)\<close>, statement by statement.\<close>

definition rotateLeft :: "RedBlackTree \<Rightarrow> ptr \<Rightarrow> error + RedBlackTree" where
  "rotateLeft t x =
     seq (get_right t x) (\<lambda>y.
     seq (get_left t y) (\<lambda>yl.
     seq (set_right t x yl) (\<lambda>t1.
     seq (get_left t1 y) (\<lambda>yl1.
     seq (if yl1 \<noteq> None then set_parent t1 yl1 x else Inr t1) (\<lambda>t2.
     seq (transplant t2 x y) (\<lambda>t3.
     seq (set_left t3 y x) (\<lambda>t4.
     set_parent t4 x y)))))))"

definition rotateRight :: "RedBlackTree \<Rightarrow> ptr \<Rightarrow> error + RedBlackTree" where
  "rotateRight t x =
     seq (get_left t x) (\<lambda>y.
     seq (get_right t y) (\<lambda>yr.
     seq (set_left t x yr) (\<lambda>t1.
     seq (get_right t1 y) (\<lambda>yr1.
     seq (if yr1 \<noteq> None then set_parent t1 yr1 x else Inr t1) (\<lambda>t2.
     seq (transplant t2 x y) (\<lambda>t3.
     seq (set_right t3 y x) (\<lambda>t4.
     set_parent t4 x y)))))))"

text \<open>
  \<^verbatim>\<open>insertFix\<close>. The loop condition \<^verbatim>\<open>n != root && n->parent->color == RED\<close>
  (with its short circuit), one run of the loop body, which yields the new store and
  the new \<^verbatim>\<open>n\<close>, and the loop followed by \<^verbatim>\<open>root->color = BLACK\<close>. The loop may
  not end on a store whose links are not a tree: then its value is \<open>None\<close>.
\<close>

definition insertFix_cond :: "RedBlackTree \<Rightarrow> ptr \<Rightarrow> error + bool" where
  "insertFix_cond t n =
     (if n = root t then Inr False
      else seq (get_parent t n) (\<lambda>p.
           seq (get_color t p) (\<lambda>c. Inr (c = RED))))"

definition uncle_is_red :: "RedBlackTree \<Rightarrow> ptr \<Rightarrow> error + bool" where
  "uncle_is_red t u =
     (if u = None then Inr False else seq (get_color t u) (\<lambda>c. Inr (c = RED)))"

text \<open>Case 1 of either side: \<^verbatim>\<open>p->color = BLACK; u->color = BLACK; g->color = RED; n = g\<close>.\<close>

definition recolor :: "RedBlackTree \<Rightarrow> ptr \<Rightarrow> ptr \<Rightarrow> ptr \<Rightarrow> error + RedBlackTree \<times> ptr" where
  "recolor t p u g =
     seq (set_color t p BLACK) (\<lambda>t1.
     seq (set_color t1 u BLACK) (\<lambda>t2.
     seq (set_color t2 g RED) (\<lambda>t3.
     Inr (t3, g))))"

text \<open>The branch \<^verbatim>\<open>p == g->left\<close>.\<close>

definition insertFix_left ::
    "RedBlackTree \<Rightarrow> ptr \<Rightarrow> ptr \<Rightarrow> ptr \<Rightarrow> error + RedBlackTree \<times> ptr" where
  "insertFix_left t n p g =
     seq (get_right t g) (\<lambda>u.
     seq (uncle_is_red t u) (\<lambda>red.
     if red then recolor t p u g
     else
       seq (get_right t p) (\<lambda>pr.
       seq (if n = pr then
              seq (rotateLeft t p) (\<lambda>t1.
              seq (get_parent t1 p) (\<lambda>p'.
              seq (get_parent t1 p') (\<lambda>g'.
              Inr (t1, p, p', g'))))
            else Inr (t, n, p, g)) (\<lambda>(t1, n', p', g').
       seq (set_color t1 p' BLACK) (\<lambda>t2.
       seq (set_color t2 g' RED) (\<lambda>t3.
       seq (rotateRight t3 g') (\<lambda>t4.
       Inr (t4, n'))))))))"

text \<open>The symmetric branch, \<^verbatim>\<open>p\<close> the right child of \<^verbatim>\<open>g\<close>.\<close>

definition insertFix_right ::
    "RedBlackTree \<Rightarrow> ptr \<Rightarrow> ptr \<Rightarrow> ptr \<Rightarrow> error + RedBlackTree \<times> ptr" where
  "insertFix_right t n p g =
     seq (get_left t g) (\<lambda>u.
     seq (uncle_is_red t u) (\<lambda>red.
     if red then recolor t p u g
     else
       seq (get_left t p) (\<lambda>pl.
       seq (if n = pl then
              seq (rotateRight t p) (\<lambda>t1.
              seq (get_parent t1 p) (\<lambda>p'.
              seq (get_parent t1 p') (\<lambda>g'.
              Inr (t1, p, p', g'))))
            else Inr (t, n, p, g)) (\<lambda>(t1, n', p', g').
       seq (set_color t1 p' BLACK) (\<lambda>t2.
       seq (set_color t2 g' RED) (\<lambda>t3.
       seq (rotateLeft t3 g') (\<lambda>t4.
       Inr (t4, n'))))))))"

definition insertFix_body :: "RedBlackTree \<Rightarrow> ptr \<Rightarrow> error + RedBlackTree \<times> ptr" where
  "insertFix_body t n =
     seq (get_parent t n) (\<lambda>p.
     seq (get_parent t p) (\<lambda>g.
     seq (get_left t g) (\<lambda>gl.
     if p = gl then insertFix_left t n p g else insertFix_right t n p g)))"

partial_function (option) insertFix :: "RedBlackTree \<Rightarrow> ptr \<Rightarrow> (error + RedBlackTree) option" where
  "insertFix t n =
     (case insertFix_cond t n of
        Inl e \<Rightarrow> Some (Inl e)
      | Inr again \<Rightarrow>
          if again then
            (case insertFix_body t n of
               Inl e \<Rightarrow> Some (Inl e)
             | Inr (t', n') \<Rightarrow> insertFix t' n')
          else Some (set_color t (root t) BLACK))"

text \<open>
  \<^verbatim>\<open>RedBlackTree::insert\<close>. The descent either appends to the values of the node
  with the key and returns from \<^verbatim>\<open>insert\<close>, or leaves the loop at a null \<^verbatim>\<open>cur\<close>
  with \<^verbatim>\<open>parent\<close> the last node visited.
\<close>

datatype descent = Appended RedBlackTree | Attach ptr

partial_function (option) insert_loop ::
    "RedBlackTree \<Rightarrow> Object \<Rightarrow> ptr \<Rightarrow> ptr \<Rightarrow> (error + descent) option" where
  "insert_loop t obj cur par =
     (if cur = None then Some (Inr (Attach par))
      else
        (case load t cur of
           Inl e \<Rightarrow> Some (Inl e)
         | Inr cn \<Rightarrow>
             if name obj = key cn then
               Some (seq (store t cur (\<lambda>n. n\<lparr>vals := vals n @ [obj]\<rparr>)) (\<lambda>t'. Inr (Appended t')))
             else insert_loop t obj (if name obj < key cn then left cn else right cn) cur))"

text \<open>\<^verbatim>\<open>new Node(name, obj, c, p)\<close>: the children are null.\<close>

definition new_Node :: "RedBlackTree \<Rightarrow> string \<Rightarrow> Object \<Rightarrow> Color \<Rightarrow> ptr \<Rightarrow> RedBlackTree \<times> ptr" where
  "new_Node t k obj c p =
     (t\<lparr>nodes := nodes t @ [\<lparr>key = k, vals = [obj], color = c, left = None, right = None,
                               parent = p\<rparr>]\<rparr>,
      Some (length (nodes t)))"

text \<open>
  The statements after the descent, up to the call of \<^verbatim>\<open>insertFix\<close>: the new node is
  made \<^verbatim>\<open>RED\<close> with \<^verbatim>\<open>parent\<close> as its parent and hung below it on the side of its key.
\<close>

definition attach :: "RedBlackTree \<Rightarrow> Object \<Rightarrow> ptr \<Rightarrow> error + RedBlackTree \<times> ptr" where
  "attach t obj par =
     (case new_Node t (name obj) obj RED par of
        (t1, node) \<Rightarrow>
          seq (load t1 par) (\<lambda>pn.
          seq (if name obj < key pn then set_left t1 par node else set_right t1 par node) (\<lambda>t2.
          Inr (t2, node))))"

definition RB_insert :: "RedBlackTree \<Rightarrow> Object \<Rightarrow> (error + RedBlackTree) option" where
  "RB_insert t obj =
     (if root t = None then
        (case new_Node t (name obj) obj BLACK None of (t1, node) \<Rightarrow> Some (Inr (t1\<lparr>root := node\<rparr>)))
      else
        (case insert_loop t obj (root t) None of
           None \<Rightarrow> None
         | Some (Inl e) \<Rightarrow> Some (Inl e)
         | Some (Inr (Appended t')) \<Rightarrow> Some (Inr t')
         | Some (Inr (Attach par)) \<Rightarrow>
             (case attach t obj par of
                Inl e \<Rightarrow> Some (Inl e)
              | Inr (t2, node) \<Rightarrow> insertFix t2 node)))"

text \<open>\<^verbatim>\<open>RedBlackTree::search\<close>.\<close>

partial_function (option) search_loop ::
    "RedBlackTree \<Rightarrow> string \<Rightarrow> ptr \<Rightarrow> (error + Object list) option" where
  "search_loop t k cur =
     (if cur = None then Some (Inr [])
      else
        (case load t cur of
           Inl e \<Rightarrow> Some (Inl e)
         | Inr cn \<Rightarrow>
             if k = key cn then Some (Inr (vals cn))
             else search_loop t k (if k < key cn then left cn else right cn)))"

definition RB_search :: "RedBlackTree \<Rightarrow> string \<Rightarrow> (error + Object list) option" where
  "RB_search t k = search_loop t k (root t)"

text \<open>The records inserted one by one into the empty tree, stopping at the first error.\<close>

fun RB_insert_all :: "RedBlackTree \<Rightarrow> Object list \<Rightarrow> (error + RedBlackTree) option" where
  "RB_insert_all t [] = Some (Inr t)"
| "RB_insert_all t (obj # data) =
     (case RB_insert t obj of
        None \<Rightarrow> None
      | Some (Inl e) \<Rightarrow> Some (Inl e)
      | Some (Inr t') \<Rightarrow> RB_insert_all t' data)"

definition RB_build :: "Object list \<Rightarrow> (error + RedBlackTree) option" where
  "RB_build data = RB_insert_all RedBlackTree_new data"

declare insertFix.simps [code]

declare insert_loop.simps [code]

declare search_loop.simps [code]

section \<open>The tree that a store lays out\<close>

text \<open>
  What the claims say about the balanced tree is said about the tree of nodes reached
  from \<^verbatim>\<open>root\<close> through \<^verbatim>\<open>left\<close> and \<^verbatim>\<open>right\<close>. \<open>rbtree\<close> is such a tree, each
  node with its address, key, values and colour; \<open>tree_at h par T\<close> holds when the
  store \<open>h\<close> has, at the addresses of \<open>T\<close>, exactly the nodes of \<open>T\<close>, linked among
  each other as in \<open>T\<close>, every \<^verbatim>\<open>parent\<close> field pointing to the node above (\<open>par\<close> for
  the topmost); \<open>RB_tree t T\<close> says so for the whole tree from \<open>root t\<close>, no address
  occurring twice. The store determines \<open>T\<close> (lemma \<open>RB_tree_unique\<close>).
\<close>

datatype rbtree = Leaf | Branch rbtree nat string "Object list" Color rbtree

fun root_ptr :: "rbtree \<Rightarrow> ptr" where
  "root_ptr Leaf = None"
| "root_ptr (Branch l a k vs c r) = Some a"

fun addrs_of :: "rbtree \<Rightarrow> nat list" where
  "addrs_of Leaf = []"
| "addrs_of (Branch l a k vs c r) = addrs_of l @ a # addrs_of r"

fun tree_at :: "RBNode list \<Rightarrow> ptr \<Rightarrow> rbtree \<Rightarrow> bool" where
  "tree_at h par Leaf = True"
| "tree_at h par (Branch l a k vs c r) =
     (a < length h \<and>
      h ! a = \<lparr>key = k, vals = vs, color = c, left = root_ptr l, right = root_ptr r, parent = par\<rparr> \<and>
      tree_at h (Some a) l \<and> tree_at h (Some a) r)"

definition RB_tree :: "RedBlackTree \<Rightarrow> rbtree \<Rightarrow> bool" where
  "RB_tree t T = (root t = root_ptr T \<and> tree_at (nodes t) None T \<and> distinct (addrs_of T))"

section \<open>The red-black invariants\<close>

text \<open>
  The root is \<^verbatim>\<open>BLACK\<close>; no \<^verbatim>\<open>RED\<close> node has a \<^verbatim>\<open>RED\<close> child; and, for every
  node, the paths from it down to a null child all pass the same number of \<^verbatim>\<open>BLACK\<close>
  nodes: \<open>black_counts T\<close> lists that number for every such path from the root of \<open>T\<close>.
  A null child counts as black (\<open>color_of Leaf\<close>).
\<close>

fun color_of :: "rbtree \<Rightarrow> Color" where
  "color_of Leaf = BLACK"
| "color_of (Branch l a k vs c r) = c"

fun root_black :: "rbtree \<Rightarrow> bool" where
  "root_black Leaf = False"
| "root_black (Branch l a k vs c r) = (c = BLACK)"

fun no_red_red :: "rbtree \<Rightarrow> bool" where
  "no_red_red Leaf = True"
| "no_red_red (Branch l a k vs c r) =
     ((c = RED \<longrightarrow> color_of l = BLACK \<and> color_of r = BLACK) \<and> no_red_red l \<and> no_red_red r)"

fun black_counts :: "rbtree \<Rightarrow> nat list" where
  "black_counts Leaf = [0]"
| "black_counts (Branch l a k vs c r) =
     map (\<lambda>n. if c = BLACK then Suc n else n) (black_counts l @ black_counts r)"

fun uniform_black :: "rbtree \<Rightarrow> bool" where
  "uniform_black Leaf = True"
| "uniform_black (Branch l a k vs c r) =
     ((\<forall>m \<in> set (black_counts (Branch l a k vs c r)).
        \<forall>n \<in> set (black_counts (Branch l a k vs c r)). m = n) \<and>
      uniform_black l \<and> uniform_black r)"

section \<open>The ordering invariant\<close>

text \<open>
  For every node, the keys of its left subtree are smaller and the keys of its right
  subtree are greater than its key, for the balanced tree and for the ordered tree.
  \<open>entries\<close> and \<open>BST_key_list\<close> read a tree from left to right.
\<close>

fun keys_of :: "rbtree \<Rightarrow> string set" where
  "keys_of Leaf = {}"
| "keys_of (Branch l a k vs c r) = keys_of l \<union> {k} \<union> keys_of r"

fun bst_ordered :: "rbtree \<Rightarrow> bool" where
  "bst_ordered Leaf = True"
| "bst_ordered (Branch l a k vs c r) =
     ((\<forall>x \<in> keys_of l. x < k) \<and> (\<forall>x \<in> keys_of r. k < x) \<and> bst_ordered l \<and> bst_ordered r)"

fun entries :: "rbtree \<Rightarrow> (string \<times> Object list) list" where
  "entries Leaf = []"
| "entries (Branch l a k vs c r) = entries l @ (k, vs) # entries r"

fun BST_keys :: "BSTNode \<Rightarrow> string set" where
  "BST_keys Null = {}"
| "BST_keys (Node k vs l r) = BST_keys l \<union> {k} \<union> BST_keys r"

fun BST_ordered :: "BSTNode \<Rightarrow> bool" where
  "BST_ordered Null = True"
| "BST_ordered (Node k vs l r) =
     ((\<forall>x \<in> BST_keys l. x < k) \<and> (\<forall>x \<in> BST_keys r. k < x) \<and> BST_ordered l \<and> BST_ordered r)"

fun BST_key_list :: "BSTNode \<Rightarrow> string list" where
  "BST_key_list Null = []"
| "BST_key_list (Node k vs l r) = BST_key_list l @ k # BST_key_list r"

section \<open>The hash function as the specification words it\<close>

text \<open>
  \<^verbatim>\<open>h = 0; for each byte b in key: h = (h * 131 + b) mod bucket_count\<close>, the accumulator
  an unsigned 64-bit integer that wraps around: on natural numbers, with the wrap-around
  \<open>mod 2 ^ 64\<close> written out. The bytes of the key are \<open>map of_char k\<close>.
\<close>

fun hash_ref_loop :: "nat \<Rightarrow> nat list \<Rightarrow> nat \<Rightarrow> nat" where
  "hash_ref_loop n [] h = h"
| "hash_ref_loop n (b # bs) h = hash_ref_loop n bs (((h * 131 + b) mod 2 ^ 64) mod n)"

definition hash_ref :: "nat \<Rightarrow> string \<Rightarrow> nat" where
  "hash_ref n k = hash_ref_loop n (map of_char k) 0"

section \<open>The states in which the fix-up loop runs\<close>

text \<open>
  \<open>fix_state t n\<close>: the store \<open>t\<close> and the node \<open>n\<close> are those at the head of the loop of
  \<^verbatim>\<open>insertFix\<close> at some moment of some \<^verbatim>\<open>insert\<close> into a tree that was built by
  inserts from the empty tree. The first such state is the one \<^verbatim>\<open>insert\<close> calls
  \<^verbatim>\<open>insertFix\<close> in; each run of the loop body, when the loop condition holds, gives
  the next.
\<close>

inductive fix_state :: "RedBlackTree \<Rightarrow> ptr \<Rightarrow> bool" where
  start: "RB_build data = Some (Inr t) \<Longrightarrow> root t \<noteq> None \<Longrightarrow>
          insert_loop t obj (root t) None = Some (Inr (Attach par)) \<Longrightarrow>
          attach t obj par = Inr (t2, node) \<Longrightarrow> fix_state t2 node"
| step: "fix_state t n \<Longrightarrow> insertFix_cond t n = Inr True \<Longrightarrow>
         insertFix_body t n = Inr (t', n') \<Longrightarrow> fix_state t' n'"

section \<open>Example data\<close>

text \<open>
  The three records of the example in the specification; the store after the first
  two have been inserted; and that store after a record with the key \<open>''c''\<close> has been
  hung below \<open>''b''\<close>, before its fix-up.
\<close>

definition example_data :: "Object list" where
  "example_data =
     [\<lparr>obj_id = 1, name = ''a'', obj_value = 0\<rparr>,
      \<lparr>obj_id = 2, name = ''b'', obj_value = 0\<rparr>,
      \<lparr>obj_id = 3, name = ''a'', obj_value = 1\<rparr>]"

definition example_two :: RedBlackTree where
  "example_two =
     \<lparr>nodes =
        [\<lparr>key = ''a'', vals = [\<lparr>obj_id = 1, name = ''a'', obj_value = 0\<rparr>],
           color = BLACK, left = None, right = Some 1, parent = None\<rparr>,
         \<lparr>key = ''b'', vals = [\<lparr>obj_id = 2, name = ''b'', obj_value = 0\<rparr>],
           color = RED, left = None, right = None, parent = Some 0\<rparr>],
      root = Some 0\<rparr>"

definition example_attached :: RedBlackTree where
  "example_attached =
     \<lparr>nodes =
        [\<lparr>key = ''a'', vals = [\<lparr>obj_id = 1, name = ''a'', obj_value = 0\<rparr>],
           color = BLACK, left = None, right = Some 1, parent = None\<rparr>,
         \<lparr>key = ''b'', vals = [\<lparr>obj_id = 2, name = ''b'', obj_value = 0\<rparr>],
           color = RED, left = None, right = Some 2, parent = Some 0\<rparr>,
         \<lparr>key = ''c'', vals = [\<lparr>obj_id = 4, name = ''c'', obj_value = 0\<rparr>],
           color = RED, left = None, right = None, parent = Some 1\<rparr>],
      root = Some 0\<rparr>"

section \<open>Apparatus of the proofs\<close>

subsection \<open>Paths\<close>

text \<open>
  A node pointer together with the chain of \<^verbatim>\<open>parent\<close> links above it is a subtree and
  the path from it up to the root: a list of frames, each the node passed, the side on
  which the path arrives, and the subtree on the other side. \<open>plug T path\<close> is the whole
  tree again. \<open>path_at\<close> is to a path what \<open>tree_at\<close> is to a tree.
\<close>

datatype side = LeftChild | RightChild

datatype frame = Fr side nat string "Object list" Color rbtree

fun plug1 :: "rbtree \<Rightarrow> frame \<Rightarrow> rbtree" where
  "plug1 T (Fr LeftChild a k vs c s) = Branch T a k vs c s"
| "plug1 T (Fr RightChild a k vs c s) = Branch s a k vs c T"

fun plug :: "rbtree \<Rightarrow> frame list \<Rightarrow> rbtree" where
  "plug T [] = T"
| "plug T (f # fs) = plug (plug1 T f) fs"

fun hole_parent :: "frame list \<Rightarrow> ptr" where
  "hole_parent [] = None"
| "hole_parent (Fr d a k vs c s # fs) = Some a"

fun paddrs :: "frame list \<Rightarrow> nat list" where
  "paddrs [] = []"
| "paddrs (Fr d a k vs c s # fs) = a # addrs_of s @ paddrs fs"

fun path_at :: "RBNode list \<Rightarrow> ptr \<Rightarrow> ptr \<Rightarrow> frame list \<Rightarrow> bool" where
  "path_at h rt c [] = (rt = c)"
| "path_at h rt c (Fr d a k vs col s # fs) =
     (a < length h \<and>
      h ! a = \<lparr>key = k, vals = vs, color = col,
               left = (case d of LeftChild \<Rightarrow> c | RightChild \<Rightarrow> root_ptr s),
               right = (case d of LeftChild \<Rightarrow> root_ptr s | RightChild \<Rightarrow> c),
               parent = hole_parent fs\<rparr> \<and>
      tree_at h (Some a) s \<and> path_at h rt (Some a) fs)"

subsection \<open>The invariant of the fix-up loop\<close>

text \<open>
  Black height, read along the left spine, and its uniformity in the usual recursive
  form; what a path must satisfy for the tree plugged into it to be balanced; and the
  invariant of the loop: the node \<^verbatim>\<open>n\<close> is \<^verbatim>\<open>RED\<close>, its subtree and the path are in
  order, and the only place where two \<^verbatim>\<open>RED\<close> nodes may meet is between \<^verbatim>\<open>n\<close> and
  its parent. A \<^verbatim>\<open>RED\<close> frame always has a \<^verbatim>\<open>BLACK\<close> frame above it.
\<close>

fun bheight :: "rbtree \<Rightarrow> nat" where
  "bheight Leaf = 0"
| "bheight (Branch l a k vs c r) = (if c = BLACK then Suc (bheight l) else bheight l)"

fun invh :: "rbtree \<Rightarrow> bool" where
  "invh Leaf = True"
| "invh (Branch l a k vs c r) = (bheight l = bheight r \<and> invh l \<and> invh r)"

fun paint :: "Color \<Rightarrow> rbtree \<Rightarrow> rbtree" where
  "paint c Leaf = Leaf"
| "paint c (Branch l a k vs c' r) = Branch l a k vs c r"

fun top_black :: "frame list \<Rightarrow> bool" where
  "top_black [] = False"
| "top_black (Fr d a k vs c s # fs) = (c = BLACK)"

fun top_red :: "frame list \<Rightarrow> bool" where
  "top_red [] = False"
| "top_red (Fr d a k vs c s # fs) = (c = RED)"

fun path_invh :: "nat \<Rightarrow> frame list \<Rightarrow> bool" where
  "path_invh b [] = True"
| "path_invh b (Fr d a k vs c s # fs) =
     (invh s \<and> bheight s = b \<and> path_invh (if c = BLACK then Suc b else b) fs)"

fun path_invc :: "frame list \<Rightarrow> bool" where
  "path_invc [] = True"
| "path_invc (Fr d a k vs c s # fs) =
     (no_red_red s \<and> (c = RED \<longrightarrow> color_of s = BLACK \<and> top_black fs) \<and> path_invc fs)"

definition fix_inv :: "rbtree \<Rightarrow> frame list \<Rightarrow> bool" where
  "fix_inv T path =
     (color_of T = RED \<and> no_red_red T \<and> invh T \<and> path_invh (bheight T) path \<and> path_invc path)"

text \<open>One run of the loop body, on the subtree of \<^verbatim>\<open>n\<close> and the path above it.\<close>

fun fix_step :: "rbtree \<Rightarrow> frame list \<Rightarrow> rbtree \<times> frame list" where
  "fix_step T (Fr dp p kp vp cp sp # Fr LeftChild g kg vg cg u # fs) =
     (if color_of u = RED then
        (Branch (plug1 T (Fr dp p kp vp BLACK sp)) g kg vg RED (paint BLACK u), fs)
      else
        (case dp of
           LeftChild \<Rightarrow> (T, Fr LeftChild p kp vp BLACK (Branch sp g kg vg RED u) # fs)
         | RightChild \<Rightarrow>
             (case T of
                Leaf \<Rightarrow> (T, Fr dp p kp vp cp sp # Fr LeftChild g kg vg cg u # fs)
              | Branch b n kn vn cn c \<Rightarrow>
                  (Branch sp p kp vp cp b,
                   Fr LeftChild n kn vn BLACK (Branch c g kg vg RED u) # fs))))"
| "fix_step T (Fr dp p kp vp cp sp # Fr RightChild g kg vg cg u # fs) =
     (if color_of u = RED then
        (Branch (paint BLACK u) g kg vg RED (plug1 T (Fr dp p kp vp BLACK sp)), fs)
      else
        (case dp of
           RightChild \<Rightarrow> (T, Fr RightChild p kp vp BLACK (Branch u g kg vg RED sp) # fs)
         | LeftChild \<Rightarrow>
             (case T of
                Leaf \<Rightarrow> (T, Fr dp p kp vp cp sp # Fr RightChild g kg vg cg u # fs)
              | Branch b n kn vn cn c \<Rightarrow>
                  (Branch c p kp vp cp sp,
                   Fr RightChild n kn vn BLACK (Branch u g kg vg RED b) # fs))))"
| "fix_step T path = (T, path)"

subsection \<open>Search and insertion on trees\<close>

text \<open>
  The walk of \<^verbatim>\<open>search\<close>, the insertion without rebalancing (the new node at address
  \<open>a\<close>), the descent of \<^verbatim>\<open>insert\<close> as a subtree and a path, and what holds of the
  tree after the records \<open>data\<close> have been inserted.
\<close>

fun tsearch :: "rbtree \<Rightarrow> string \<Rightarrow> Object list" where
  "tsearch Leaf k = []"
| "tsearch (Branch l a k' vs c r) k =
     (if k = k' then vs else if k < k' then tsearch l k else tsearch r k)"

fun tins :: "nat \<Rightarrow> Object \<Rightarrow> rbtree \<Rightarrow> rbtree" where
  "tins a obj Leaf = Branch Leaf a (name obj) [obj] RED Leaf"
| "tins a obj (Branch l b k vs c r) =
     (if name obj = k then Branch l b k (vs @ [obj]) c r
      else if name obj < k then Branch (tins a obj l) b k vs c r
      else Branch l b k vs c (tins a obj r))"

fun descend :: "Object \<Rightarrow> rbtree \<Rightarrow> frame list \<Rightarrow> rbtree \<times> frame list" where
  "descend obj Leaf path = (Leaf, path)"
| "descend obj (Branch l a k vs c r) path =
     (if name obj = k then (Branch l a k vs c r, path)
      else if name obj < k then descend obj l (Fr LeftChild a k vs c r # path)
      else descend obj r (Fr RightChild a k vs c l # path))"

definition rb_good :: "rbtree \<Rightarrow> bool" where
  "rb_good T = (color_of T = BLACK \<and> no_red_red T \<and> invh T)"

definition rb_inv :: "Object list \<Rightarrow> RedBlackTree \<Rightarrow> rbtree \<Rightarrow> bool" where
  "rb_inv data t T =
     (RB_tree t T \<and> rb_good T \<and> bst_ordered T \<and>
      (\<forall>k. tsearch T k = filter (\<lambda>obj. name obj = k) data))"

subsection \<open>The hash table after a list of inserts\<close>

text \<open>
  The bucket index of a key for a non-zero size, and the state of the table after the
  records \<open>data\<close>: bucket \<open>i\<close> holds, in their order, the records whose key has index
  \<open>i\<close>, and the counter is the sum over the buckets of their length less one.
\<close>

definition hidx :: "64 word \<Rightarrow> string \<Rightarrow> 64 word" where
  "hidx sz k = fold (\<lambda>c h. (h * 131 + of_char c) mod sz) k 0"

definition ht_inv :: "64 word \<Rightarrow> Object list \<Rightarrow> HashTable \<Rightarrow> bool" where
  "ht_inv sz data t =
     (ht_size t = sz \<and> length (buckets t) = unat sz \<and>
      (\<forall>i < unat sz. buckets t ! i = filter (\<lambda>obj. unat (hidx sz (name obj)) = i) data) \<and>
      collisionCount t = of_nat (sum_list (map (\<lambda>b. length b - 1) (buckets t))))"

section \<open>Lemmas\<close>

subsection \<open>Linear scan\<close>

lemma linearSearch_loop_filter:
  "linearSearch_loop data k result = result @ filter (\<lambda>obj. name obj = k) data"
  by (induction data arbitrary: result) simp_all

subsection \<open>Paths, colours and black heights\<close>

lemma invh_plug: "invh (plug T path) \<longleftrightarrow> invh T \<and> path_invh (bheight T) path"
proof (induction path arbitrary: T)
  case Nil
  show ?case by simp
next
  case (Cons f fs)
  obtain d a k vs c s where f: "f = Fr d a k vs c s" by (cases f)
  show ?case by (cases d) (auto simp: f Cons.IH)
qed

lemma invc_plug:
  "no_red_red (plug T path) \<and> color_of (plug T path) = BLACK \<longleftrightarrow>
     no_red_red T \<and> path_invc path \<and> (if path = [] then color_of T = BLACK else top_red path \<longrightarrow> color_of T = BLACK)"
proof (induction path arbitrary: T)
  case Nil
  show ?case by simp
next
  case (Cons f fs)
  obtain d a k vs c s where f: "f = Fr d a k vs c s" by (cases f)
  show ?case
  proof (cases fs)
    case Nil
    then show ?thesis by (cases d; cases c) (auto simp: f)
  next
    case (Cons f' fs')
    obtain d' a' k' vs' c' s' where f': "f' = Fr d' a' k' vs' c' s'" by (cases f')
    show ?thesis using Cons.IH[of "plug1 T f"]
      by (cases d; cases c; cases c') (auto simp: f f' Cons)
  qed
qed

lemma entries_plug_cong:
  "entries T = entries T' \<Longrightarrow> entries (plug T path) = entries (plug T' path)"
proof (induction path arbitrary: T T')
  case Nil
  then show ?case by simp
next
  case (Cons f fs)
  obtain d a k vs c s where f: "f = Fr d a k vs c s" by (cases f)
  show ?case by (cases d) (auto simp: f Cons.prems intro!: Cons.IH)
qed

lemma entries_paint [simp]: "entries (paint c T) = entries T"
  by (cases T) simp_all

lemma not_RED [simp]: "c \<noteq> RED \<longleftrightarrow> c = BLACK"
  by (cases c) simp_all

lemma not_BLACK [simp]: "c \<noteq> BLACK \<longleftrightarrow> c = RED"
  by (cases c) simp_all

lemma plug1_simps [simp]:
  "color_of (plug1 T (Fr d a k vs c s)) = c"
  "entries (plug1 T (Fr d a k vs c s)) =
     (case d of LeftChild \<Rightarrow> entries T @ (k, vs) # entries s
      | RightChild \<Rightarrow> entries s @ (k, vs) # entries T)"
  "no_red_red (plug1 T (Fr d a k vs c s)) =
     ((c = RED \<longrightarrow> color_of T = BLACK \<and> color_of s = BLACK) \<and> no_red_red T \<and> no_red_red s)"
  "invh (plug1 T (Fr d a k vs c s)) = (bheight T = bheight s \<and> invh T \<and> invh s)"
  by (cases d; auto)+

lemma bheight_plug1 [simp]:
  "bheight T = bheight s \<Longrightarrow>
   bheight (plug1 T (Fr d a k vs c s)) = (if c = BLACK then Suc (bheight s) else bheight s)"
  by (cases d) auto

lemma fix_inv_top_red:
  assumes "fix_inv T path" "top_red path"
  obtains dp p kp vp sp dg g kg vg u fs where
    "path = Fr dp p kp vp RED sp # Fr dg g kg vg BLACK u # fs"
proof -
  from assms(2) obtain dp p kp vp sp rest where p: "path = Fr dp p kp vp RED sp # rest"
    by (cases path rule: top_red.cases) auto
  with assms(1) have "top_black rest" by (simp add: fix_inv_def)
  then obtain dg g kg vg u fs where "rest = Fr dg g kg vg BLACK u # fs"
    by (cases rest rule: top_black.cases) auto
  with p that show thesis by blast
qed

lemma fix_step_entries:
  "fix_step T path = (T', path') \<Longrightarrow> entries (plug T' path') = entries (plug T path)"
  apply (induction T path rule: fix_step.induct)
  apply (auto split: if_splits side.splits rbtree.splits intro!: entries_plug_cong)
  done

lemma fix_step_length:
  assumes "fix_inv T path" "top_red path" "fix_step T path = (T', path')"
  shows "length path' < length path"
proof -
  from assms(1,2) obtain dp p kp vp sp dg g kg vg u fs where
    p: "path = Fr dp p kp vp RED sp # Fr dg g kg vg BLACK u # fs"
    by (rule fix_inv_top_red)
  from assms(1) have "T \<noteq> Leaf" by (auto simp: fix_inv_def)
  with assms(3) show ?thesis
    by (cases dg; cases dp; cases T) (auto simp: p split: if_splits)
qed

lemma color_of_RED: "color_of T = RED \<Longrightarrow> \<exists>l a k vs r. T = Branch l a k vs RED r"
  by (cases T) auto

lemma fix_step_inv:
  assumes "fix_inv T path" "top_red path" "fix_step T path = (T', path')"
  shows "fix_inv T' path'"
proof -
  from assms(1,2) obtain dp p kp vp sp dg g kg vg u fs where
    p: "path = Fr dp p kp vp RED sp # Fr dg g kg vg BLACK u # fs"
    by (rule fix_inv_top_red)
  from assms(1) obtain l a k vs r where T: "T = Branch l a k vs RED r"
    by (auto simp: fix_inv_def dest: color_of_RED)
  show ?thesis
  proof (cases "color_of u = RED")
    case True
    then obtain ul ua uk uvs ur where u: "u = Branch ul ua uk uvs RED ur"
      by (auto dest: color_of_RED)
    with assms(1,3) show ?thesis
      by (cases dg; cases dp) (auto simp: p T fix_inv_def)
  next
    case False
    then have ub: "color_of u = BLACK" by simp
    from assms(1) have a1: "no_red_red l" "no_red_red r" "invh l" "invh r" "bheight l = bheight r"
      "color_of l = BLACK" "color_of r = BLACK" "invh sp" "bheight sp = bheight l"
      "no_red_red sp" "color_of sp = BLACK" "invh u" "bheight u = bheight l" "no_red_red u"
      "path_invc fs" "path_invh (Suc (bheight l)) fs"
      by (auto simp: p T fix_inv_def)
    show ?thesis
    proof (cases dg)
      case LeftChild
      with assms(3) ub a1 show ?thesis
        by (cases dp) (clarsimp simp: p T fix_inv_def)+
    next
      case RightChild
      with assms(3) ub a1 show ?thesis
        by (cases dp) (clarsimp simp: p T fix_inv_def)+
    qed
  qed
qed

subsection \<open>Trees and paths in the store\<close>

lemma seq_simps [simp]: "seq (Inr x) f = f x" "seq (Inl e) f = Inl e"
  by (simp_all add: seq_def)

lemma load_Some [simp]: "a < length (nodes t) \<Longrightarrow> load t (Some a) = Inr (nodes t ! a)"
  by (simp add: load_def)

lemma load_None [simp]: "load t None = Inl NullDereference"
  by (simp add: load_def)

lemma store_Some [simp]:
  "a < length (nodes t) \<Longrightarrow> store t (Some a) f = Inr (t\<lparr>nodes := (nodes t)[a := f (nodes t ! a)]\<rparr>)"
  by (simp add: store_def)

lemmas accessors = get_left_def get_right_def get_parent_def get_color_def
  set_left_def set_right_def set_parent_def set_color_def

lemma tree_at_bound: "tree_at h par T \<Longrightarrow> a \<in> set (addrs_of T) \<Longrightarrow> a < length h"
  by (induction T arbitrary: par) auto

lemma tree_at_update [simp]:
  "a \<notin> set (addrs_of T) \<Longrightarrow> tree_at (h[a := v]) par T = tree_at h par T"
  by (induction T arbitrary: par) auto

lemma tree_at_append: "tree_at h par T \<Longrightarrow> tree_at (h @ xs) par T"
  by (induction T arbitrary: par) (auto simp: nth_append)

lemma path_at_update [simp]:
  "a \<notin> set (paddrs path) \<Longrightarrow> path_at (h[a := v]) rt c path = path_at h rt c path"
  by (induction h rt c path rule: path_at.induct) auto

lemma path_at_append: "path_at h rt c path \<Longrightarrow> path_at (h @ xs) rt c path"
  by (induction h rt c path rule: path_at.induct) (auto simp: nth_append tree_at_append)

lemma distinct_plug:
  "distinct (addrs_of (plug T path)) \<longleftrightarrow> distinct (addrs_of T @ paddrs path)"
proof (induction path arbitrary: T)
  case Nil
  show ?case by simp
next
  case (Cons f fs)
  obtain d a k vs c s where f: "f = Fr d a k vs c s" by (cases f)
  show ?case by (cases d) (auto simp: f Cons.IH)
qed

lemma tree_at_plug:
  "root_ptr (plug T path) = rt \<and> tree_at h None (plug T path) \<longleftrightarrow>
     tree_at h (hole_parent path) T \<and> path_at h rt (root_ptr T) path"
proof (induction path arbitrary: T)
  case Nil
  show ?case by auto
next
  case (Cons f fs)
  obtain d a k vs c s where f: "f = Fr d a k vs c s" by (cases f)
  show ?case by (cases d) (auto simp: f Cons.IH)
qed

lemma RB_tree_plug:
  "RB_tree t (plug T path) \<longleftrightarrow>
     tree_at (nodes t) (hole_parent path) T \<and> path_at (nodes t) (root t) (root_ptr T) path \<and>
     distinct (addrs_of T @ paddrs path)"
  using tree_at_plug[of T path "root t" "nodes t"] by (auto simp: RB_tree_def distinct_plug)

lemma path_at_bound: "path_at h rt c path \<Longrightarrow> a \<in> set (paddrs path) \<Longrightarrow> a < length h"
  by (induction h rt c path rule: path_at.induct) (auto dest: tree_at_bound)

lemma load_focus:
  assumes "RB_tree t (plug (Branch l a k vs c r) path)"
  shows "load t (Some a) = Inr \<lparr>key = k, vals = vs, color = c, left = root_ptr l,
           right = root_ptr r, parent = hole_parent path\<rparr>"
  using assms by (simp add: RB_tree_plug)

lemma set_color_focus:
  assumes "RB_tree t (plug (Branch l a k vs c r) path)"
  shows "\<exists>t'. set_color t (Some a) c' = Inr t' \<and> RB_tree t' (plug (Branch l a k vs c' r) path)"
  using assms by (auto simp: RB_tree_plug set_color_def)

lemma root_ptr_notin [simp]:
  "a \<notin> set (addrs_of T) \<Longrightarrow> root_ptr T \<noteq> Some a"
  "a \<notin> set (addrs_of T) \<Longrightarrow> Some a \<noteq> root_ptr T"
  by (cases T; auto)+

lemma rotateLeft_focus:
  assumes "RB_tree t (plug (Branch a x kx vx cx (Branch b y ky vy cy c)) path)"
  shows "\<exists>t'. rotateLeft t (Some x) = Inr t' \<and>
           RB_tree t' (plug (Branch (Branch a x kx vx cx b) y ky vy cy c) path)"
  using assms unfolding RB_tree_plug
proof (cases path)
  case Nil
  assume "tree_at (nodes t) (hole_parent path) (Branch a x kx vx cx (Branch b y ky vy cy c)) \<and>
    path_at (nodes t) (root t) (root_ptr (Branch a x kx vx cx (Branch b y ky vy cy c))) path \<and>
    distinct (addrs_of (Branch a x kx vx cx (Branch b y ky vy cy c)) @ paddrs path)"
  with Nil show "\<exists>t'. rotateLeft t (Some x) = Inr t' \<and>
           tree_at (nodes t') (hole_parent path) (Branch (Branch a x kx vx cx b) y ky vy cy c) \<and>
     path_at (nodes t') (root t') (root_ptr (Branch (Branch a x kx vx cx b) y ky vy cy c)) path \<and>
     distinct (addrs_of (Branch (Branch a x kx vx cx b) y ky vy cy c) @ paddrs path)"
    by (cases b) (auto simp: rotateLeft_def transplant_def accessors)
next
  case (Cons f fs)
  obtain d g kg vg cg s where f: "f = Fr d g kg vg cg s" by (cases f)
  assume "tree_at (nodes t) (hole_parent path) (Branch a x kx vx cx (Branch b y ky vy cy c)) \<and>
    path_at (nodes t) (root t) (root_ptr (Branch a x kx vx cx (Branch b y ky vy cy c))) path \<and>
    distinct (addrs_of (Branch a x kx vx cx (Branch b y ky vy cy c)) @ paddrs path)"
  with Cons f show "\<exists>t'. rotateLeft t (Some x) = Inr t' \<and>
           tree_at (nodes t') (hole_parent path) (Branch (Branch a x kx vx cx b) y ky vy cy c) \<and>
     path_at (nodes t') (root t') (root_ptr (Branch (Branch a x kx vx cx b) y ky vy cy c)) path \<and>
     distinct (addrs_of (Branch (Branch a x kx vx cx b) y ky vy cy c) @ paddrs path)"
    by (cases b; cases d) (auto simp: rotateLeft_def transplant_def accessors)
qed

lemma rotateRight_focus:
  assumes "RB_tree t (plug (Branch (Branch a y ky vy cy b) x kx vx cx c) path)"
  shows "\<exists>t'. rotateRight t (Some x) = Inr t' \<and>
           RB_tree t' (plug (Branch a y ky vy cy (Branch b x kx vx cx c)) path)"
  using assms unfolding RB_tree_plug
proof (cases path)
  case Nil
  assume "tree_at (nodes t) (hole_parent path) (Branch (Branch a y ky vy cy b) x kx vx cx c) \<and>
    path_at (nodes t) (root t) (root_ptr (Branch (Branch a y ky vy cy b) x kx vx cx c)) path \<and>
    distinct (addrs_of (Branch (Branch a y ky vy cy b) x kx vx cx c) @ paddrs path)"
  with Nil show "\<exists>t'. rotateRight t (Some x) = Inr t' \<and>
     tree_at (nodes t') (hole_parent path) (Branch a y ky vy cy (Branch b x kx vx cx c)) \<and>
     path_at (nodes t') (root t') (root_ptr (Branch a y ky vy cy (Branch b x kx vx cx c))) path \<and>
     distinct (addrs_of (Branch a y ky vy cy (Branch b x kx vx cx c)) @ paddrs path)"
    by (cases b) (auto simp: rotateRight_def transplant_def accessors)
next
  case (Cons f fs)
  obtain d g kg vg cg s where f: "f = Fr d g kg vg cg s" by (cases f)
  assume "tree_at (nodes t) (hole_parent path) (Branch (Branch a y ky vy cy b) x kx vx cx c) \<and>
    path_at (nodes t) (root t) (root_ptr (Branch (Branch a y ky vy cy b) x kx vx cx c)) path \<and>
    distinct (addrs_of (Branch (Branch a y ky vy cy b) x kx vx cx c) @ paddrs path)"
  with Cons f show "\<exists>t'. rotateRight t (Some x) = Inr t' \<and>
     tree_at (nodes t') (hole_parent path) (Branch a y ky vy cy (Branch b x kx vx cx c)) \<and>
     path_at (nodes t') (root t') (root_ptr (Branch a y ky vy cy (Branch b x kx vx cx c))) path \<and>
     distinct (addrs_of (Branch a y ky vy cy (Branch b x kx vx cx c)) @ paddrs path)"
    by (cases b; cases d) (auto simp: rotateRight_def transplant_def accessors)
qed

lemma root_ptr_plug:
  "path \<noteq> [] \<Longrightarrow> \<exists>a \<in> set (paddrs path). root_ptr (plug T path) = Some a"
proof (induction path arbitrary: T)
  case Nil
  then show ?case by simp
next
  case (Cons f fs)
  obtain d a k vs c s where f: "f = Fr d a k vs c s" by (cases f)
  show ?case
  proof (cases fs)
    case Nil
    then show ?thesis by (cases d) (auto simp: f)
  next
    case Cons': (Cons f' fs')
    then have "fs \<noteq> []" by simp
    from Cons.IH[OF this, of "plug1 T f"] show ?thesis by (auto simp: f)
  qed
qed

lemma insertFix_cond_sim:
  assumes "RB_tree t (plug T path)" "T \<noteq> Leaf"
  shows "insertFix_cond t (root_ptr T) = Inr (top_red path)"
proof (cases path)
  case Nil
  with assms show ?thesis by (simp add: insertFix_cond_def RB_tree_def)
next
  case (Cons f fs)
  obtain d a k vs c s where f: "f = Fr d a k vs c s" by (cases f)
  from assms(2) obtain l n kn vn cn r where T: "T = Branch l n kn vn cn r" by (cases T) auto
  from Cons have "path \<noteq> []" by simp
  from root_ptr_plug[OF this, of T] obtain b where
    b: "b \<in> set (paddrs path)" "root_ptr (plug T path) = Some b" by blast
  from assms(1) have d: "distinct (addrs_of T @ paddrs path)" by (simp add: RB_tree_plug)
  with b T have "Some n \<noteq> root t" using assms(1) by (auto simp: RB_tree_def)
  moreover from assms(1)[unfolded T Cons f RB_tree_plug]
  have "load t (Some n) = Inr \<lparr>key = kn, vals = vn, color = cn,
      left = root_ptr l, right = root_ptr r, parent = Some a\<rparr>"
    by simp
  moreover from assms(1)[unfolded T Cons f RB_tree_plug] have "get_color t (Some a) = Inr c"
    by (cases d) (simp_all add: get_color_def)
  ultimately show ?thesis
    by (simp add: insertFix_cond_def T Cons f get_parent_def)
qed

subsection \<open>The loop body of \<^verbatim>\<open>insertFix\<close> on the store\<close>

lemma root_ptr_plug1 [simp]: "root_ptr (plug1 T (Fr d a k vs c s)) = Some a"
  by (cases d) simp_all

lemma load_plug1:
  assumes "RB_tree t (plug (plug1 T (Fr d a k vs c s)) path)"
  shows "load t (Some a) = Inr \<lparr>key = k, vals = vs, color = c,
           left = (case d of LeftChild \<Rightarrow> root_ptr T | RightChild \<Rightarrow> root_ptr s),
           right = (case d of LeftChild \<Rightarrow> root_ptr s | RightChild \<Rightarrow> root_ptr T),
           parent = hole_parent path\<rparr>"
  using assms by (cases d) (simp_all add: load_focus)

lemma set_color_plug1:
  assumes "RB_tree t (plug (plug1 T (Fr d a k vs c s)) path)"
  shows "\<exists>t'. set_color t (Some a) c' = Inr t' \<and> RB_tree t' (plug (plug1 T (Fr d a k vs c' s)) path)"
  using assms by (cases d) (simp_all add: set_color_focus)

lemma insertFix_left_sim:
  assumes tree: "RB_tree t (plug (Branch l n kn vn RED r)
            (Fr dp p kp vp RED sp # Fr LeftChild g kg vg BLACK u # fs))"
  shows "\<exists>t'. insertFix_left t (Some n) (Some p) (Some g) =
            Inr (t', root_ptr (fst (fix_step (Branch l n kn vn RED r)
                  (Fr dp p kp vp RED sp # Fr LeftChild g kg vg BLACK u # fs)))) \<and>
          RB_tree t' (plug (fst (fix_step (Branch l n kn vn RED r)
                  (Fr dp p kp vp RED sp # Fr LeftChild g kg vg BLACK u # fs)))
             (snd (fix_step (Branch l n kn vn RED r)
                  (Fr dp p kp vp RED sp # Fr LeftChild g kg vg BLACK u # fs))))"
proof -
  let ?T = "Branch l n kn vn RED r"
  let ?P = "plug1 ?T (Fr dp p kp vp RED sp)"
  from tree have W: "RB_tree t (plug (Branch ?P g kg vg BLACK u) fs)" by simp
  from tree have Wp: "RB_tree t (plug ?P (Fr LeftChild g kg vg BLACK u # fs))" by simp
  note loc = tree[unfolded RB_tree_plug]
  have lg: "load t (Some g) = Inr \<lparr>key = kg, vals = vg, color = BLACK, left = Some p,
      right = root_ptr u, parent = hole_parent fs\<rparr>"
    using load_focus[OF W] by simp
  note lp = load_plug1[OF Wp]
  show ?thesis
  proof (cases "color_of u = RED")
    case True
    then obtain ul ua uk uvs ur where u: "u = Branch ul ua uk uvs RED ur"
      by (auto dest: color_of_RED)
    from W have Wu: "RB_tree t (plug u (Fr RightChild g kg vg BLACK ?P # fs))" by simp
    have lu: "load t (Some ua) = Inr \<lparr>key = uk, vals = uvs, color = RED, left = root_ptr ul,
      right = root_ptr ur, parent = Some g\<rparr>"
      using load_focus[OF Wu[unfolded u]] by simp
    from set_color_plug1[OF Wp, of BLACK] obtain t1 where
      t1: "set_color t (Some p) BLACK = Inr t1"
          "RB_tree t1 (plug (plug1 ?T (Fr dp p kp vp BLACK sp)) (Fr LeftChild g kg vg BLACK u # fs))"
      by blast
    let ?P' = "plug1 ?T (Fr dp p kp vp BLACK sp)"
    from t1(2) have "RB_tree t1 (plug (Branch ul ua uk uvs RED ur) (Fr RightChild g kg vg BLACK ?P' # fs))"
      by (simp add: u)
    from set_color_focus[OF this, of BLACK] obtain t2 where
      t2: "set_color t1 (Some ua) BLACK = Inr t2"
          "RB_tree t2 (plug (Branch ul ua uk uvs BLACK ur) (Fr RightChild g kg vg BLACK ?P' # fs))"
      by blast
    from t2(2) have "RB_tree t2 (plug (Branch ?P' g kg vg BLACK (Branch ul ua uk uvs BLACK ur)) fs)"
      by simp
    from set_color_focus[OF this, of RED] obtain t3 where
      t3: "set_color t2 (Some g) RED = Inr t3"
          "RB_tree t3 (plug (Branch ?P' g kg vg RED (Branch ul ua uk uvs BLACK ur)) fs)"
      by blast
    show ?thesis
      using lg lu t1 t2 t3
      by (simp add: insertFix_left_def get_right_def uncle_is_red_def get_color_def recolor_def u)
  next
    case False
    then have ub: "color_of u = BLACK" by simp
    have ured: "uncle_is_red t (root_ptr u) = Inr False"
    proof (cases u)
      case Leaf
      then show ?thesis by (simp add: uncle_is_red_def)
    next
      case (Branch ul ua uk uvs uc ur)
      from W have Wu: "RB_tree t (plug u (Fr RightChild g kg vg BLACK ?P # fs))" by simp
      from load_focus[OF Wu[unfolded Branch]] ub Branch show ?thesis
        by (simp add: uncle_is_red_def get_color_def)
    qed
    show ?thesis
    proof (cases dp)
      case LeftChild
      from loc have "Some n \<noteq> root_ptr sp" by (auto simp: LeftChild)
      with lp have npr: "get_right t (Some p) = Inr (root_ptr sp)" "Some n \<noteq> root_ptr sp"
        by (simp_all add: get_right_def LeftChild)
      from set_color_plug1[OF Wp, of BLACK] obtain t2 where
        t2: "set_color t (Some p) BLACK = Inr t2"
            "RB_tree t2 (plug (plug1 ?T (Fr dp p kp vp BLACK sp)) (Fr LeftChild g kg vg BLACK u # fs))"
        by blast
      from t2(2) have "RB_tree t2 (plug (Branch (Branch ?T p kp vp BLACK sp) g kg vg BLACK u) fs)"
        by (simp add: LeftChild)
      from set_color_focus[OF this, of RED] obtain t3 where
        t3: "set_color t2 (Some g) RED = Inr t3"
            "RB_tree t3 (plug (Branch (Branch ?T p kp vp BLACK sp) g kg vg RED u) fs)"
        by blast
      from rotateRight_focus[OF t3(2)] obtain t4 where
        t4: "rotateRight t3 (Some g) = Inr t4"
            "RB_tree t4 (plug (Branch ?T p kp vp BLACK (Branch sp g kg vg RED u)) fs)"
        by blast
      show ?thesis
        using lg ured npr t2 t3 t4 ub
        by (simp add: insertFix_left_def get_right_def LeftChild)
    next
      case RightChild
      from lp have npr: "get_right t (Some p) = Inr (Some n)"
        by (simp add: get_right_def RightChild)
      from Wp have "RB_tree t (plug (Branch sp p kp vp RED (Branch l n kn vn RED r))
          (Fr LeftChild g kg vg BLACK u # fs))"
        by (simp add: RightChild)
      from rotateLeft_focus[OF this] obtain t1 where
        t1: "rotateLeft t (Some p) = Inr t1"
            "RB_tree t1 (plug (Branch (Branch sp p kp vp RED l) n kn vn RED r)
               (Fr LeftChild g kg vg BLACK u # fs))"
        by blast
      from t1(2) have "RB_tree t1 (plug (Branch sp p kp vp RED l)
               (Fr LeftChild n kn vn RED r # Fr LeftChild g kg vg BLACK u # fs))"
        by simp
      from load_focus[OF this] have pp: "get_parent t1 (Some p) = Inr (Some n)"
        by (simp add: get_parent_def)
      from load_focus[OF t1(2)] have pn: "get_parent t1 (Some n) = Inr (Some g)"
        by (simp add: get_parent_def)
      from set_color_focus[OF t1(2), of BLACK] obtain t2 where
        t2: "set_color t1 (Some n) BLACK = Inr t2"
            "RB_tree t2 (plug (Branch (Branch sp p kp vp RED l) n kn vn BLACK r)
               (Fr LeftChild g kg vg BLACK u # fs))"
        by blast
      from t2(2) have "RB_tree t2 (plug (Branch (Branch (Branch sp p kp vp RED l) n kn vn BLACK r)
               g kg vg BLACK u) fs)"
        by simp
      from set_color_focus[OF this, of RED] obtain t3 where
        t3: "set_color t2 (Some g) RED = Inr t3"
            "RB_tree t3 (plug (Branch (Branch (Branch sp p kp vp RED l) n kn vn BLACK r)
               g kg vg RED u) fs)"
        by blast
      from rotateRight_focus[OF t3(2)] obtain t4 where
        t4: "rotateRight t3 (Some g) = Inr t4"
            "RB_tree t4 (plug (Branch (Branch sp p kp vp RED l) n kn vn BLACK
               (Branch r g kg vg RED u)) fs)"
        by blast
      show ?thesis
        using lg ured npr t1 pp pn t2 t3 t4 ub
        by (simp add: insertFix_left_def get_right_def RightChild)
    qed
  qed
qed

lemma insertFix_right_sim:
  assumes tree: "RB_tree t (plug (Branch l n kn vn RED r)
            (Fr dp p kp vp RED sp # Fr RightChild g kg vg BLACK u # fs))"
  shows "\<exists>t'. insertFix_right t (Some n) (Some p) (Some g) =
            Inr (t', root_ptr (fst (fix_step (Branch l n kn vn RED r)
                  (Fr dp p kp vp RED sp # Fr RightChild g kg vg BLACK u # fs)))) \<and>
          RB_tree t' (plug (fst (fix_step (Branch l n kn vn RED r)
                  (Fr dp p kp vp RED sp # Fr RightChild g kg vg BLACK u # fs)))
             (snd (fix_step (Branch l n kn vn RED r)
                  (Fr dp p kp vp RED sp # Fr RightChild g kg vg BLACK u # fs))))"
proof -
  let ?T = "Branch l n kn vn RED r"
  let ?P = "plug1 ?T (Fr dp p kp vp RED sp)"
  from tree have W: "RB_tree t (plug (Branch u g kg vg BLACK ?P) fs)" by simp
  from tree have Wp: "RB_tree t (plug ?P (Fr RightChild g kg vg BLACK u # fs))" by simp
  note loc = tree[unfolded RB_tree_plug]
  have lg: "load t (Some g) = Inr \<lparr>key = kg, vals = vg, color = BLACK, left = root_ptr u,
      right = Some p, parent = hole_parent fs\<rparr>"
    using load_focus[OF W] by simp
  note lp = load_plug1[OF Wp]
  show ?thesis
  proof (cases "color_of u = RED")
    case True
    then obtain ul ua uk uvs ur where u: "u = Branch ul ua uk uvs RED ur"
      by (auto dest: color_of_RED)
    from W have Wu: "RB_tree t (plug u (Fr LeftChild g kg vg BLACK ?P # fs))" by simp
    have lu: "load t (Some ua) = Inr \<lparr>key = uk, vals = uvs, color = RED, left = root_ptr ul,
      right = root_ptr ur, parent = Some g\<rparr>"
      using load_focus[OF Wu[unfolded u]] by simp
    from set_color_plug1[OF Wp, of BLACK] obtain t1 where
      t1: "set_color t (Some p) BLACK = Inr t1"
          "RB_tree t1 (plug (plug1 ?T (Fr dp p kp vp BLACK sp)) (Fr RightChild g kg vg BLACK u # fs))"
      by blast
    let ?P' = "plug1 ?T (Fr dp p kp vp BLACK sp)"
    from t1(2) have "RB_tree t1 (plug (Branch ul ua uk uvs RED ur) (Fr LeftChild g kg vg BLACK ?P' # fs))"
      by (simp add: u)
    from set_color_focus[OF this, of BLACK] obtain t2 where
      t2: "set_color t1 (Some ua) BLACK = Inr t2"
          "RB_tree t2 (plug (Branch ul ua uk uvs BLACK ur) (Fr LeftChild g kg vg BLACK ?P' # fs))"
      by blast
    from t2(2) have "RB_tree t2 (plug (Branch (Branch ul ua uk uvs BLACK ur) g kg vg BLACK ?P') fs)"
      by simp
    from set_color_focus[OF this, of RED] obtain t3 where
      t3: "set_color t2 (Some g) RED = Inr t3"
          "RB_tree t3 (plug (Branch (Branch ul ua uk uvs BLACK ur) g kg vg RED ?P') fs)"
      by blast
    show ?thesis
      using lg lu t1 t2 t3
      by (simp add: insertFix_right_def get_left_def uncle_is_red_def get_color_def recolor_def u)
  next
    case False
    then have ub: "color_of u = BLACK" by simp
    have ured: "uncle_is_red t (root_ptr u) = Inr False"
    proof (cases u)
      case Leaf
      then show ?thesis by (simp add: uncle_is_red_def)
    next
      case (Branch ul ua uk uvs uc ur)
      from W have Wu: "RB_tree t (plug u (Fr LeftChild g kg vg BLACK ?P # fs))" by simp
      from load_focus[OF Wu[unfolded Branch]] ub Branch show ?thesis
        by (simp add: uncle_is_red_def get_color_def)
    qed
    show ?thesis
    proof (cases dp)
      case RightChild
      from loc have "Some n \<noteq> root_ptr sp" by (auto simp: RightChild)
      with lp have npl: "get_left t (Some p) = Inr (root_ptr sp)" "Some n \<noteq> root_ptr sp"
        by (simp_all add: get_left_def RightChild)
      from set_color_plug1[OF Wp, of BLACK] obtain t2 where
        t2: "set_color t (Some p) BLACK = Inr t2"
            "RB_tree t2 (plug (plug1 ?T (Fr dp p kp vp BLACK sp)) (Fr RightChild g kg vg BLACK u # fs))"
        by blast
      from t2(2) have "RB_tree t2 (plug (Branch u g kg vg BLACK (Branch sp p kp vp BLACK ?T)) fs)"
        by (simp add: RightChild)
      from set_color_focus[OF this, of RED] obtain t3 where
        t3: "set_color t2 (Some g) RED = Inr t3"
            "RB_tree t3 (plug (Branch u g kg vg RED (Branch sp p kp vp BLACK ?T)) fs)"
        by blast
      from rotateLeft_focus[OF t3(2)] obtain t4 where
        t4: "rotateLeft t3 (Some g) = Inr t4"
            "RB_tree t4 (plug (Branch (Branch u g kg vg RED sp) p kp vp BLACK ?T) fs)"
        by blast
      show ?thesis
        using lg ured npl t2 t3 t4 ub
        by (simp add: insertFix_right_def get_left_def RightChild)
    next
      case LeftChild
      from lp have npl: "get_left t (Some p) = Inr (Some n)"
        by (simp add: get_left_def LeftChild)
      from Wp have "RB_tree t (plug (Branch (Branch l n kn vn RED r) p kp vp RED sp)
          (Fr RightChild g kg vg BLACK u # fs))"
        by (simp add: LeftChild)
      from rotateRight_focus[OF this] obtain t1 where
        t1: "rotateRight t (Some p) = Inr t1"
            "RB_tree t1 (plug (Branch l n kn vn RED (Branch r p kp vp RED sp))
               (Fr RightChild g kg vg BLACK u # fs))"
        by blast
      from t1(2) have "RB_tree t1 (plug (Branch r p kp vp RED sp)
               (Fr RightChild n kn vn RED l # Fr RightChild g kg vg BLACK u # fs))"
        by simp
      from load_focus[OF this] have pp: "get_parent t1 (Some p) = Inr (Some n)"
        by (simp add: get_parent_def)
      from load_focus[OF t1(2)] have pn: "get_parent t1 (Some n) = Inr (Some g)"
        by (simp add: get_parent_def)
      from set_color_focus[OF t1(2), of BLACK] obtain t2 where
        t2: "set_color t1 (Some n) BLACK = Inr t2"
            "RB_tree t2 (plug (Branch l n kn vn BLACK (Branch r p kp vp RED sp))
               (Fr RightChild g kg vg BLACK u # fs))"
        by blast
      from t2(2) have "RB_tree t2 (plug (Branch u g kg vg BLACK
               (Branch l n kn vn BLACK (Branch r p kp vp RED sp))) fs)"
        by simp
      from set_color_focus[OF this, of RED] obtain t3 where
        t3: "set_color t2 (Some g) RED = Inr t3"
            "RB_tree t3 (plug (Branch u g kg vg RED
               (Branch l n kn vn BLACK (Branch r p kp vp RED sp))) fs)"
        by blast
      from rotateLeft_focus[OF t3(2)] obtain t4 where
        t4: "rotateLeft t3 (Some g) = Inr t4"
            "RB_tree t4 (plug (Branch (Branch u g kg vg RED l) n kn vn BLACK
               (Branch r p kp vp RED sp)) fs)"
        by blast
      show ?thesis
        using lg ured npl t1 pp pn t2 t3 t4 ub
        by (simp add: insertFix_right_def get_left_def LeftChild)
    qed
  qed
qed

lemma insertFix_body_sim:
  assumes "RB_tree t (plug T path)" "fix_inv T path" "top_red path"
  shows "\<exists>t'. insertFix_body t (root_ptr T) = Inr (t', root_ptr (fst (fix_step T path))) \<and>
           RB_tree t' (plug (fst (fix_step T path)) (snd (fix_step T path)))"
proof -
  from assms(2,3) obtain dp p kp vp sp dg g kg vg u fs where
    p: "path = Fr dp p kp vp RED sp # Fr dg g kg vg BLACK u # fs"
    by (rule fix_inv_top_red)
  from assms(2) obtain l n kn vn r where T: "T = Branch l n kn vn RED r"
    by (auto simp: fix_inv_def dest: color_of_RED)
  note loc = assms(1)[unfolded T p RB_tree_plug]
  from loc have ln: "get_parent t (Some n) = Inr (Some p)" by (simp add: get_parent_def)
  from assms(1) have Wp: "RB_tree t (plug (plug1 T (Fr dp p kp vp RED sp)) (Fr dg g kg vg BLACK u # fs))"
    by (simp add: p)
  from load_plug1[OF Wp] have lp: "get_parent t (Some p) = Inr (Some g)"
    by (simp add: get_parent_def)
  show ?thesis
  proof (cases dg)
    case LeftChild
    from assms(1) have "RB_tree t (plug (Branch (plug1 T (Fr dp p kp vp RED sp)) g kg vg BLACK u) fs)"
      by (simp add: p LeftChild)
    from load_focus[OF this] have "get_left t (Some g) = Inr (Some p)"
      by (simp add: get_left_def)
    with ln lp insertFix_left_sim[OF assms(1)[unfolded T p LeftChild]] show ?thesis
      by (simp add: insertFix_body_def T p LeftChild)
  next
    case RightChild
    from assms(1) have "RB_tree t (plug (Branch u g kg vg BLACK (plug1 T (Fr dp p kp vp RED sp))) fs)"
      by (simp add: p RightChild)
    from load_focus[OF this] have gl: "get_left t (Some g) = Inr (root_ptr u)"
      by (simp add: get_left_def)
    from loc have "Some p \<noteq> root_ptr u" by (auto simp: RightChild)
    with gl ln lp insertFix_right_sim[OF assms(1)[unfolded T p RightChild]] show ?thesis
      by (simp add: insertFix_body_def T p RightChild)
  qed
qed

subsection \<open>The loops of \<^verbatim>\<open>insertFix\<close>, \<^verbatim>\<open>search\<close> and \<^verbatim>\<open>insert\<close>\<close>

lemma plug_not_Leaf: "T \<noteq> Leaf \<Longrightarrow> plug T path \<noteq> Leaf"
proof (induction path arbitrary: T)
  case Nil
  then show ?case by simp
next
  case (Cons f fs)
  obtain d a k vs c s where f: "f = Fr d a k vs c s" by (cases f)
  show ?case by (cases d) (auto simp: f intro!: Cons.IH)
qed

lemma paint_simps [simp]:
  "invh (paint c T) = invh T"
  "no_red_red T \<Longrightarrow> no_red_red (paint BLACK T)"
  "T \<noteq> Leaf \<Longrightarrow> color_of (paint c T) = c"
  by (cases T; simp)+

lemma insertFix_sim:
  assumes "RB_tree t (plug T path)" "fix_inv T path"
  shows "\<exists>t' W. insertFix t (root_ptr T) = Some (Inr t') \<and> RB_tree t' W \<and>
           entries W = entries (plug T path) \<and> color_of W = BLACK \<and> no_red_red W \<and> invh W"
  using assms
proof (induction "length path" arbitrary: t T path rule: less_induct)
  case less
  from less.prems(2) have TL: "T \<noteq> Leaf" by (auto simp: fix_inv_def)
  note cond = insertFix_cond_sim[OF less.prems(1) TL]
  show ?case
  proof (cases "top_red path")
    case True
    from insertFix_body_sim[OF less.prems True] obtain t1 where
      t1: "insertFix_body t (root_ptr T) = Inr (t1, root_ptr (fst (fix_step T path)))"
          "RB_tree t1 (plug (fst (fix_step T path)) (snd (fix_step T path)))"
      by blast
    obtain T1 path1 where st: "fix_step T path = (T1, path1)" by (cases "fix_step T path")
    from fix_step_length[OF less.prems(2) True st] have len: "length path1 < length path" .
    from fix_step_inv[OF less.prems(2) True st] have inv1: "fix_inv T1 path1" .
    from t1(2) st have "RB_tree t1 (plug T1 path1)" by simp
    from less.hyps[OF len this inv1] obtain t' W where
      W: "insertFix t1 (root_ptr T1) = Some (Inr t')" "RB_tree t' W"
         "entries W = entries (plug T1 path1)" "color_of W = BLACK" "no_red_red W" "invh W"
      by blast
    have "insertFix t (root_ptr T) = Some (Inr t')"
      using cond True t1(1) st W(1) by (subst insertFix.simps) simp
    with W fix_step_entries[OF st] show ?thesis by auto
  next
    case False
    let ?W = "plug T path"
    from plug_not_Leaf[OF TL] obtain wl wa wk wvs wc wr where
      W0: "?W = Branch wl wa wk wvs wc wr" by (cases ?W) auto
    from less.prems(1) have rt: "root t = Some wa" by (simp add: RB_tree_def W0)
    from less.prems(1) have "RB_tree t (plug (Branch wl wa wk wvs wc wr) [])" by (simp add: W0)
    from set_color_focus[OF this, of BLACK] obtain t' where
      t': "set_color t (Some wa) BLACK = Inr t'" "RB_tree t' (Branch wl wa wk wvs BLACK wr)"
      by auto
    have good: "no_red_red ?W \<and> invh ?W"
    proof (cases path)
      case Nil
      with less.prems(2) show ?thesis by (simp add: fix_inv_def)
    next
      case (Cons f fs)
      with False less.prems(2) have "no_red_red (plug T path) \<and> color_of (plug T path) = BLACK"
        unfolding invc_plug by (simp add: fix_inv_def)
      moreover from less.prems(2) have "invh (plug T path)"
        unfolding invh_plug by (simp add: fix_inv_def)
      ultimately show ?thesis by simp
    qed
    have "insertFix t (root_ptr T) = Some (Inr t')"
      using cond False t'(1) rt by (subst insertFix.simps) simp
    moreover from good have "no_red_red (Branch wl wa wk wvs BLACK wr)" "invh (Branch wl wa wk wvs BLACK wr)"
      by (simp_all add: W0)
    moreover have "entries (Branch wl wa wk wvs BLACK wr) = entries ?W" by (simp add: W0)
    ultimately show ?thesis using t'(2) by (intro exI[of _ t'] exI[of _ "Branch wl wa wk wvs BLACK wr"]) simp
  qed
qed

lemma search_loop_sim:
  "tree_at (nodes t) par T \<Longrightarrow> search_loop t k (root_ptr T) = Some (Inr (tsearch T k))"
proof (induction T arbitrary: par)
  case Leaf
  show ?case by (subst search_loop.simps) simp
next
  case (Branch l a k' vs c r)
  from Branch.prems Branch.IH(1)[of "Some a"] Branch.IH(2)[of "Some a"] show ?case
    by (subst search_loop.simps) auto
qed

lemma descend_plug: "descend obj T path = (T', path') \<Longrightarrow> plug T' path' = plug T path"
  by (induction obj T path rule: descend.induct) (auto split: if_splits)

lemma descend_tins:
  "descend obj T path = (T', path') \<Longrightarrow> plug (tins a obj T') path' = plug (tins a obj T) path"
  by (induction obj T path rule: descend.induct) (auto split: if_splits)

lemma descend_found:
  "descend obj T path = (Branch l a k vs c r, path') \<Longrightarrow> k = name obj"
  by (induction obj T path rule: descend.induct) (auto split: if_splits)

lemma descend_side:
  "descend obj T path = (Leaf, path') \<Longrightarrow> T \<noteq> Leaf \<Longrightarrow>
     \<exists>d a k vs c s fs. path' = Fr d a k vs c s # fs \<and> (d = LeftChild \<longleftrightarrow> name obj < k)"
proof (induction obj T path rule: descend.induct)
  case (1 obj path)
  then show ?case by simp
next
  case (2 obj l a k vs c r path)
  show ?case
  proof (cases "name obj < k")
    case True
    with 2 show ?thesis by (cases l) (auto split: if_splits)
  next
    case False
    with 2 show ?thesis by (cases r) (auto split: if_splits)
  qed
qed

lemma append_vals_focus:
  assumes "RB_tree t (plug (Branch l a k vs c r) path)"
  shows "\<exists>t'. store t (Some a) (\<lambda>n. n\<lparr>vals := vals n @ [obj]\<rparr>) = Inr t' \<and>
           RB_tree t' (plug (Branch l a k (vs @ [obj]) c r) path)"
  using assms by (auto simp: RB_tree_plug)

lemma insert_loop_sim:
  assumes "RB_tree t (plug T path)" "descend obj T path = (T', path')"
  shows "(T' = Leaf \<longrightarrow>
            insert_loop t obj (root_ptr T) (hole_parent path) = Some (Inr (Attach (hole_parent path')))) \<and>
         (\<forall>l a k vs c r. T' = Branch l a k vs c r \<longrightarrow>
            (\<exists>t'. insert_loop t obj (root_ptr T) (hole_parent path) = Some (Inr (Appended t')) \<and>
                  RB_tree t' (plug (Branch l a k (vs @ [obj]) c r) path')))"
  using assms
proof (induction T arbitrary: path)
  case Leaf
  then show ?case by (subst insert_loop.simps) simp
next
  case (Branch l a k vs c r)
  note ld = load_focus[OF Branch.prems(1)]
  show ?case
  proof (cases "name obj = k")
    case True
    from append_vals_focus[OF Branch.prems(1), of obj] obtain t' where
      t': "store t (Some a) (\<lambda>n. n\<lparr>vals := vals n @ [obj]\<rparr>) = Inr t'"
      "RB_tree t' (plug (Branch l a k (vs @ [obj]) c r) path)" by blast
    have "insert_loop t obj (Some a) (hole_parent path) = Some (Inr (Appended t'))"
      using True ld t'(1) by (subst insert_loop.simps) simp
    with True t'(2) Branch.prems(2) show ?thesis by auto
  next
    case False
    show ?thesis
    proof (cases "name obj < k")
      case True
      have eq: "insert_loop t obj (Some a) (hole_parent path) =
          insert_loop t obj (root_ptr l) (hole_parent (Fr LeftChild a k vs c r # path))"
        using False True ld by (subst insert_loop.simps) simp
      from Branch.prems(1) have h1: "RB_tree t (plug l (Fr LeftChild a k vs c r # path))" by simp
      from Branch.prems(2) False True
      have h2: "descend obj l (Fr LeftChild a k vs c r # path) = (T', path')" by simp
      from Branch.IH(1)[OF h1 h2] show ?thesis unfolding root_ptr.simps eq .
    next
      case nless: False
      have eq: "insert_loop t obj (Some a) (hole_parent path) =
          insert_loop t obj (root_ptr r) (hole_parent (Fr RightChild a k vs c l # path))"
        using False nless ld by (subst insert_loop.simps) simp
      from Branch.prems(1) have h1: "RB_tree t (plug r (Fr RightChild a k vs c l # path))" by simp
      from Branch.prems(2) False nless
      have h2: "descend obj r (Fr RightChild a k vs c l # path) = (T', path')" by simp
      from Branch.IH(2)[OF h1 h2] show ?thesis unfolding root_ptr.simps eq .
    qed
  qed
qed

lemma attach_sim:
  assumes "RB_tree t (plug Leaf (Fr d a k vs c s # fs))" "d = LeftChild \<longleftrightarrow> name obj < k"
  shows "\<exists>t2. attach t obj (Some a) = Inr (t2, Some (length (nodes t))) \<and>
          RB_tree t2 (plug (Branch Leaf (length (nodes t)) (name obj) [obj] RED Leaf)
             (Fr d a k vs c s # fs))"
proof -
  note loc = assms(1)[unfolded RB_tree_plug]
  from loc have fresh: "length (nodes t) \<notin> set (paddrs (Fr d a k vs c s # fs))"
    using path_at_bound[of "nodes t" "root t" None "Fr d a k vs c s # fs" "length (nodes t)"]
    by auto
  from loc have pa: "path_at (nodes t) (root t) None (Fr d a k vs c s # fs)" by simp
  have "path_at (nodes t @ [x]) (root t) None (Fr d a k vs c s # fs)" for x
    by (rule path_at_append[OF pa])
  with loc fresh assms(2) show ?thesis
    unfolding RB_tree_plug
    by (cases d) (auto simp: attach_def new_Node_def accessors nth_append intro: tree_at_append path_at_append)
qed

subsection \<open>One insert, and any number of them\<close>

lemma keys_of_entries: "keys_of T = fst ` set (entries T)"
  by (induction T) auto

lemma bst_ordered_sorted: "bst_ordered T \<longleftrightarrow> sorted_wrt (<) (map fst (entries T))"
proof (induction T)
  case Leaf
  show ?case by simp
next
  case (Branch l a k vs c r)
  have "(\<forall>x\<in>set (entries l). \<forall>y\<in>set (entries r). fst x < fst y)"
    if "\<forall>x\<in>set (entries l). fst x < k" "\<forall>y\<in>set (entries r). k < fst y"
    using that by (meson less_trans)
  with Branch show ?case
    by (auto simp: sorted_wrt_append keys_of_entries)
qed

lemma bst_ordered_cong: "entries T = entries T' \<Longrightarrow> bst_ordered T = bst_ordered T'"
  by (simp add: bst_ordered_sorted)

lemma tsearch_notin: "k \<notin> keys_of T \<Longrightarrow> tsearch T k = []"
  by (induction T) auto

lemma tsearch_map_of:
  "bst_ordered T \<Longrightarrow> tsearch T k = (case map_of (entries T) k of None \<Rightarrow> [] | Some vs \<Rightarrow> vs)"
proof (induction T)
  case Leaf
  show ?case by simp
next
  case (Branch l a k' vs c r)
  from Branch.prems have ol: "bst_ordered l" and or: "bst_ordered r"
    and lt: "\<forall>x \<in> keys_of l. x < k'" and gt: "\<forall>x \<in> keys_of r. k' < x" by auto
  show ?case
  proof (cases "k = k'")
    case True
    with lt have "k \<notin> keys_of l" by auto
    then have "map_of (entries l) k = None" by (simp add: keys_of_entries map_of_eq_None_iff)
    with True show ?thesis by (simp add: map_add_def)
  next
    case False
    show ?thesis
    proof (cases "k < k'")
      case True
      with gt have "k \<notin> keys_of r" by force
      then have "map_of (entries r) k = None" by (simp add: keys_of_entries map_of_eq_None_iff)
      with True False Branch.IH(1)[OF ol] show ?thesis
        by (simp add: map_add_def split: option.splits)
    next
      case nless: False
      with False lt have "k \<notin> keys_of l" by force
      then have "map_of (entries l) k = None" by (simp add: keys_of_entries map_of_eq_None_iff)
      with nless False Branch.IH(2)[OF or] show ?thesis
        by (simp add: map_add_def split: option.splits)
    qed
  qed
qed

lemma tsearch_cong:
  "entries T = entries T' \<Longrightarrow> bst_ordered T \<Longrightarrow> tsearch T' k = tsearch T k"
  using bst_ordered_cong[of T T'] by (simp add: tsearch_map_of)

lemma keys_of_tins: "keys_of (tins a obj T) = insert (name obj) (keys_of T)"
  by (induction T) auto

lemma bst_ordered_tins: "bst_ordered T \<Longrightarrow> bst_ordered (tins a obj T)"
  by (induction T) (auto simp: keys_of_tins)

lemma tsearch_tins:
  "tsearch (tins a obj T) k = (if k = name obj then tsearch T k @ [obj] else tsearch T k)"
  by (induction T) auto

lemma RB_insert_sim:
  assumes "RB_tree t T" "rb_good T"
  shows "\<exists>t' T'. RB_insert t obj = Some (Inr t') \<and> RB_tree t' T' \<and> T' \<noteq> Leaf \<and> rb_good T' \<and>
           entries T' = entries (tins (length (nodes t)) obj T)"
proof (cases T)
  case Leaf
  let ?T' = "Branch Leaf (length (nodes t)) (name obj) [obj] BLACK Leaf"
  from assms(1) Leaf have "root t = None" by (simp add: RB_tree_def)
  then have "\<exists>t'. RB_insert t obj = Some (Inr t') \<and> RB_tree t' ?T'"
    by (simp add: RB_insert_def new_Node_def RB_tree_def)
  then obtain t' where "RB_insert t obj = Some (Inr t')" "RB_tree t' ?T'" by blast
  then show ?thesis unfolding Leaf
    by (intro exI[of _ t'] exI[of _ ?T']) (simp add: rb_good_def)
next
  case (Branch l0 a0 k0 vs0 c0 r0)
  then have TL: "T \<noteq> Leaf" by simp
  from assms(1) Branch have rt: "root t = Some a0" and rp: "root_ptr T = Some a0"
    by (simp_all add: RB_tree_def)
  obtain T1 path1 where d: "descend obj T [] = (T1, path1)" by (cases "descend obj T []")
  from assms(1) have t0: "RB_tree t (plug T [])" by simp
  note sim = insert_loop_sim[OF t0 d]
  note pl = descend_plug[OF d]
  note ti = descend_tins[OF d, of "length (nodes t)"]
  from assms(2) have good: "no_red_red (plug T1 path1) \<and> color_of (plug T1 path1) = BLACK"
      "invh (plug T1 path1)"
    by (simp_all add: pl rb_good_def)
  show ?thesis
  proof (cases T1)
    case (Branch l a k vs c r)
    let ?T1' = "Branch l a k (vs @ [obj]) c r"
    from sim Branch obtain t' where
      t': "insert_loop t obj (root_ptr T) None = Some (Inr (Appended t'))"
          "RB_tree t' (plug ?T1' path1)" by auto
    from descend_found[OF d[unfolded Branch]] have k: "k = name obj" .
    from good have "no_red_red (plug ?T1' path1) \<and> color_of (plug ?T1' path1) = BLACK"
      unfolding invc_plug Branch by (auto split: if_splits)
    moreover from good have "invh (plug ?T1' path1)"
      unfolding invh_plug Branch by simp
    moreover have "plug ?T1' path1 \<noteq> Leaf" by (rule plug_not_Leaf) simp
    moreover from ti have "entries (plug ?T1' path1) = entries (tins (length (nodes t)) obj T)"
      by (simp add: Branch k)
    moreover have "RB_insert t obj = Some (Inr t')"
      using rt t'(1)[unfolded rp] by (simp add: RB_insert_def)
    ultimately show ?thesis using t'(2) by (auto simp: rb_good_def)
  next
    case Leaf
    from sim Leaf have il: "insert_loop t obj (root_ptr T) None = Some (Inr (Attach (hole_parent path1)))"
      by simp
    from descend_side[OF d[unfolded Leaf] TL] obtain dd a k vs c s fs where
      p1: "path1 = Fr dd a k vs c s # fs" "dd = LeftChild \<longleftrightarrow> name obj < k" by blast
    from assms(1) pl have "RB_tree t (plug Leaf (Fr dd a k vs c s # fs))" by (simp add: Leaf p1)
    from attach_sim[OF this p1(2)] obtain t2 where
      t2: "attach t obj (Some a) = Inr (t2, Some (length (nodes t)))"
          "RB_tree t2 (plug (Branch Leaf (length (nodes t)) (name obj) [obj] RED Leaf) path1)"
      by (auto simp: p1)
    let ?N = "Branch Leaf (length (nodes t)) (name obj) [obj] RED Leaf"
    from good have "fix_inv ?N path1"
      unfolding invc_plug invh_plug Leaf by (auto simp: fix_inv_def split: if_splits)
    from insertFix_sim[OF t2(2) this] obtain t' W where
      W: "insertFix t2 (Some (length (nodes t))) = Some (Inr t')" "RB_tree t' W"
         "entries W = entries (plug ?N path1)" "color_of W = BLACK" "no_red_red W" "invh W"
      by auto
    have "RB_insert t obj = Some (Inr t')"
      using rt il[unfolded rp] t2(1) W(1) by (simp add: RB_insert_def p1)
    moreover from ti W(3) have "entries W = entries (tins (length (nodes t)) obj T)"
      by (simp add: Leaf)
    moreover from W(3) have "W \<noteq> Leaf"
      using plug_not_Leaf[of ?N path1] by (cases W; cases "plug ?N path1") auto
    ultimately show ?thesis using W by (auto simp: rb_good_def)
  qed
qed

lemma rb_inv_insert:
  assumes "rb_inv data t T"
  shows "\<exists>t' T'. RB_insert t obj = Some (Inr t') \<and> rb_inv (data @ [obj]) t' T' \<and> T' \<noteq> Leaf"
proof -
  from assms have tr: "RB_tree t T" and g: "rb_good T" and o: "bst_ordered T"
    and s: "\<And>k. tsearch T k = filter (\<lambda>obj. name obj = k) data"
    by (auto simp: rb_inv_def)
  from RB_insert_sim[OF tr g, of obj] obtain t' T' where
    r: "RB_insert t obj = Some (Inr t')" "RB_tree t' T'" "T' \<noteq> Leaf" "rb_good T'"
       "entries T' = entries (tins (length (nodes t)) obj T)" by blast
  let ?I = "tins (length (nodes t)) obj T"
  have oi: "bst_ordered ?I" by (rule bst_ordered_tins[OF o])
  have o': "bst_ordered T'" using bst_ordered_cong[OF r(5)] oi by simp
  have "tsearch T' k = filter (\<lambda>obj. name obj = k) (data @ [obj])" for k
    using tsearch_cong[OF r(5)[symmetric] oi, of k] by (auto simp: tsearch_tins s)
  with r o' show ?thesis by (auto simp: rb_inv_def)
qed

lemma rb_inv_insert_all:
  assumes "rb_inv pre t T"
  shows "\<exists>t' T'. RB_insert_all t data = Some (Inr t') \<and> rb_inv (pre @ data) t' T' \<and>
           (data \<noteq> [] \<longrightarrow> T' \<noteq> Leaf)"
  using assms
proof (induction data arbitrary: pre t T)
  case Nil
  then show ?case by auto
next
  case (Cons obj data)
  from rb_inv_insert[OF Cons.prems, of obj] obtain t1 T1 where
    t1: "RB_insert t obj = Some (Inr t1)" "rb_inv (pre @ [obj]) t1 T1" "T1 \<noteq> Leaf" by blast
  from Cons.IH[OF t1(2)] obtain t' T' where
    t': "RB_insert_all t1 data = Some (Inr t')" "rb_inv ((pre @ [obj]) @ data) t' T'"
        "data \<noteq> [] \<longrightarrow> T' \<noteq> Leaf" by blast
  have "T' \<noteq> Leaf"
  proof (cases data)
    case Nil
    with t'(1) have "t' = t1" by simp
    with t'(2) t1(2) have "root_ptr T' = root_ptr T1" by (simp add: rb_inv_def RB_tree_def)
    with t1(3) show ?thesis by (cases T1; cases T') auto
  next
    case (Cons x xs)
    with t'(3) show ?thesis by simp
  qed
  with t1(1) t' show ?case by auto
qed

lemma rb_inv_empty: "rb_inv [] RedBlackTree_new Leaf"
  by (simp add: rb_inv_def RB_tree_def RedBlackTree_new_def rb_good_def)

lemma RB_build_inv:
  "\<exists>t T. RB_build data = Some (Inr t) \<and> rb_inv data t T \<and> (data \<noteq> [] \<longrightarrow> T \<noteq> Leaf)"
  using rb_inv_insert_all[OF rb_inv_empty, of data] by (simp add: RB_build_def)

lemma RB_search_sim: "RB_tree t T \<Longrightarrow> RB_search t k = Some (Inr (tsearch T k))"
  using search_loop_sim[of t None T k] by (simp add: RB_search_def RB_tree_def)

subsection \<open>Black counts, uniqueness of the tree, rotations anywhere in the tree\<close>

lemma black_counts_bheight: "invh T \<Longrightarrow> n \<in> set (black_counts T) \<Longrightarrow> n = bheight T"
  by (induction T arbitrary: n) auto

lemma invh_uniform_black: "invh T \<Longrightarrow> uniform_black T"
proof (induction T)
  case Leaf
  show ?case by simp
next
  case (Branch l a k vs c r)
  have "m = n" if "m \<in> set (black_counts (Branch l a k vs c r))"
    "n \<in> set (black_counts (Branch l a k vs c r))" for m n
    using black_counts_bheight[OF Branch.prems that(1)] black_counts_bheight[OF Branch.prems that(2)]
    by simp
  with Branch show ?case by (simp del: black_counts.simps)
qed

lemma tree_at_unique:
  "tree_at h par T \<Longrightarrow> tree_at h par' T' \<Longrightarrow> root_ptr T = root_ptr T' \<Longrightarrow> T = T'"
proof (induction T arbitrary: T' par par')
  case Leaf
  then show ?case by (cases T') auto
next
  case (Branch l a k vs c r)
  from Branch.prems(3) obtain l' k' vs' c' r' where T': "T' = Branch l' a k' vs' c' r'"
    by (cases T') auto
  from Branch.prems(1,2) have eq: "k' = k" "vs' = vs" "c' = c" "root_ptr l = root_ptr l'"
    "root_ptr r = root_ptr r'" "par' = par"
    and t: "tree_at h (Some a) l" "tree_at h (Some a) r" "tree_at h (Some a) l'" "tree_at h (Some a) r'"
    by (auto simp: T')
  from Branch.IH(1)[OF t(1) t(3) eq(4)] Branch.IH(2)[OF t(2) t(4) eq(5)] eq T'
  show ?case by simp
qed

lemma RB_tree_unique: "RB_tree t T \<Longrightarrow> RB_tree t T' \<Longrightarrow> T = T'"
  by (auto simp: RB_tree_def intro: tree_at_unique)

lemma plug_append: "plug T (p1 @ p2) = plug (plug T p1) p2"
  by (induction p1 arbitrary: T) simp_all

lemma focus_at:
  "x \<in> set (addrs_of T) \<Longrightarrow> \<exists>l k vs c r path. T = plug (Branch l x k vs c r) path"
proof (induction T)
  case Leaf
  then show ?case by simp
next
  case (Branch l a k vs c r)
  consider "x = a" | "x \<in> set (addrs_of l)" | "x \<in> set (addrs_of r)"
    using Branch.prems by auto
  then show ?case
  proof cases
    case 1
    then have "Branch l a k vs c r = plug (Branch l x k vs c r) []" by simp
    then show ?thesis by blast
  next
    case 2
    from Branch.IH(1)[OF 2] obtain l' k' vs' c' r' path where
      "l = plug (Branch l' x k' vs' c' r') path" by blast
    then have "Branch l a k vs c r = plug (Branch l' x k' vs' c' r') (path @ [Fr LeftChild a k vs c r])"
      by (simp add: plug_append)
    then show ?thesis by blast
  next
    case 3
    from Branch.IH(2)[OF 3] obtain l' k' vs' c' r' path where
      "r = plug (Branch l' x k' vs' c' r') path" by blast
    then have "Branch l a k vs c r = plug (Branch l' x k' vs' c' r') (path @ [Fr RightChild a k vs c l])"
      by (simp add: plug_append)
    then show ?thesis by blast
  qed
qed

lemma rotateLeft_entries:
  assumes "RB_tree t T" "x \<in> set (addrs_of T)" "rotateLeft t (Some x) = Inr t'"
  shows "\<exists>T'. RB_tree t' T' \<and> entries T' = entries T"
proof -
  from focus_at[OF assms(2)] obtain l k vs c r path where
    T: "T = plug (Branch l x k vs c r) path" by blast
  note ld = load_focus[OF assms(1)[unfolded T]]
  show ?thesis
  proof (cases r)
    case Leaf
    with ld assms(3) show ?thesis by (simp add: rotateLeft_def get_right_def get_left_def)
  next
    case (Branch rl y ky vy cy rr)
    from rotateLeft_focus[OF assms(1)[unfolded T Branch]] assms(3) have
      "RB_tree t' (plug (Branch (Branch l x k vs c rl) y ky vy cy rr) path)" by auto
    moreover have "entries (plug (Branch (Branch l x k vs c rl) y ky vy cy rr) path) = entries T"
      unfolding T Branch by (rule entries_plug_cong) simp
    ultimately show ?thesis by blast
  qed
qed

lemma rotateRight_entries:
  assumes "RB_tree t T" "x \<in> set (addrs_of T)" "rotateRight t (Some x) = Inr t'"
  shows "\<exists>T'. RB_tree t' T' \<and> entries T' = entries T"
proof -
  from focus_at[OF assms(2)] obtain l k vs c r path where
    T: "T = plug (Branch l x k vs c r) path" by blast
  note ld = load_focus[OF assms(1)[unfolded T]]
  show ?thesis
  proof (cases l)
    case Leaf
    with ld assms(3) show ?thesis by (simp add: rotateRight_def get_right_def get_left_def)
  next
    case (Branch ll y ky vy cy lr)
    from rotateRight_focus[OF assms(1)[unfolded T Branch]] assms(3) have
      "RB_tree t' (plug (Branch ll y ky vy cy (Branch lr x k vs c r)) path)" by auto
    moreover have "entries (plug (Branch ll y ky vy cy (Branch lr x k vs c r)) path) = entries T"
      unfolding T Branch by (rule entries_plug_cong) simp
    ultimately show ?thesis by blast
  qed
qed

lemma attach_fix_inv:
  assumes "RB_tree t T" "rb_good T" "root t \<noteq> None"
    "insert_loop t obj (root t) None = Some (Inr (Attach par))"
    "attach t obj par = Inr (t2, node)"
  shows "\<exists>N path. RB_tree t2 (plug N path) \<and> fix_inv N path \<and> node = root_ptr N"
proof -
  from assms(1,3) have TL: "T \<noteq> Leaf" and rp: "root t = root_ptr T"
    by (auto simp: RB_tree_def)
  obtain T1 path1 where d: "descend obj T [] = (T1, path1)" by (cases "descend obj T []")
  from assms(1) have t0: "RB_tree t (plug T [])" by simp
  note sim = insert_loop_sim[OF t0 d]
  note pl = descend_plug[OF d]
  from assms(2) have good: "no_red_red (plug T1 path1) \<and> color_of (plug T1 path1) = BLACK"
      "invh (plug T1 path1)"
    by (simp_all add: pl rb_good_def)
  from sim assms(4) have Leaf: "T1 = Leaf" and par: "par = hole_parent path1"
    by (cases T1; auto simp: rp)+
  from descend_side[OF d[unfolded Leaf] TL] obtain dd a k vs c s fs where
    p1: "path1 = Fr dd a k vs c s # fs" "dd = LeftChild \<longleftrightarrow> name obj < k" by blast
  from assms(1) pl have "RB_tree t (plug Leaf (Fr dd a k vs c s # fs))" by (simp add: Leaf p1)
  from attach_sim[OF this p1(2)] obtain t2' where
    t2: "attach t obj (Some a) = Inr (t2', Some (length (nodes t)))"
        "RB_tree t2' (plug (Branch Leaf (length (nodes t)) (name obj) [obj] RED Leaf) path1)"
    by (auto simp: p1)
  let ?N = "Branch Leaf (length (nodes t)) (name obj) [obj] RED Leaf"
  from good have "fix_inv ?N path1"
    unfolding invc_plug invh_plug Leaf by (auto simp: fix_inv_def split: if_splits)
  moreover from t2(1) assms(5) have "t2 = t2'" "node = root_ptr ?N" by (simp_all add: par p1)
  ultimately show ?thesis using t2(2) by blast
qed

lemma fix_state_inv:
  "fix_state t n \<Longrightarrow> \<exists>T path. RB_tree t (plug T path) \<and> fix_inv T path \<and> n = root_ptr T"
proof (induction rule: fix_state.induct)
  case (start data t obj par t2 node)
  from RB_build_inv[of data] start(1) obtain T where "rb_inv data t T" by auto
  then have "RB_tree t T" "rb_good T" by (simp_all add: rb_inv_def)
  from attach_fix_inv[OF this start(2,3,4)] show ?case .
next
  case (step t n t' n')
  from step.IH obtain T path where
    inv: "RB_tree t (plug T path)" "fix_inv T path" "n = root_ptr T" by blast
  from inv(2) have TL: "T \<noteq> Leaf" by (auto simp: fix_inv_def)
  from insertFix_cond_sim[OF inv(1) TL] step(2) have tr: "top_red path" by (simp add: inv(3))
  obtain T1 path1 where st: "fix_step T path = (T1, path1)" by (cases "fix_step T path")
  from insertFix_body_sim[OF inv(1,2) tr] step(3) have
    "RB_tree t' (plug T1 path1)" "n' = root_ptr T1" by (auto simp: inv(3) st)
  with fix_step_inv[OF inv(2) tr st] show ?case by blast
qed

subsection \<open>The ordered tree and the hash table\<close>

lemma BST_keys_insert: "BST_keys (BST_insert obj T) = insert (name obj) (BST_keys T)"
  by (induction T) auto

lemma BST_ordered_insert: "BST_ordered T \<Longrightarrow> BST_ordered (BST_insert obj T)"
  by (induction T) (auto simp: BST_keys_insert)

lemma BST_search_insert:
  "BST_search (BST_insert obj T) k = (if k = name obj then BST_search T k @ [obj] else BST_search T k)"
  by (induction T) auto

lemma BST_foldl_inv:
  "BST_ordered T \<Longrightarrow> (\<forall>k. BST_search T k = filter (\<lambda>obj. name obj = k) pre) \<Longrightarrow>
   BST_ordered (foldl (\<lambda>t obj. BST_insert obj t) T data) \<and>
   (\<forall>k. BST_search (foldl (\<lambda>t obj. BST_insert obj t) T data) k = filter (\<lambda>obj. name obj = k) (pre @ data))"
proof (induction data arbitrary: T pre)
  case Nil
  then show ?case by simp
next
  case (Cons obj data)
  have "BST_ordered (BST_insert obj T)" by (rule BST_ordered_insert[OF Cons.prems(1)])
  moreover have "\<forall>k. BST_search (BST_insert obj T) k = filter (\<lambda>obj. name obj = k) (pre @ [obj])"
    using Cons.prems(2) by (simp add: BST_search_insert)
  ultimately show ?case using Cons.IH[of "BST_insert obj T" "pre @ [obj]"] by simp
qed

lemma BST_build_ordered: "BST_ordered (BST_build data)"
  using BST_foldl_inv[of Null "[]" data] by (simp add: BST_build_def)

lemma BST_build_search: "BST_search (BST_build data) k = filter (\<lambda>obj. name obj = k) data"
  using BST_foldl_inv[of Null "[]" data] by (simp add: BST_build_def)

lemma BST_keys_list: "BST_keys T = set (BST_key_list T)"
  by (induction T) auto

lemma BST_ordered_distinct: "BST_ordered T \<Longrightarrow> distinct (BST_key_list T)"
proof (induction T)
  case Null
  show ?case by simp
next
  case (Node k vs l r)
  have "set (BST_key_list l) \<inter> set (BST_key_list r) = {}"
  proof -
    have False if "x \<in> set (BST_key_list l)" "x \<in> set (BST_key_list r)" for x
    proof -
      from that Node.prems have "x < k" "k < x" by (auto simp: BST_keys_list)
      then show False by simp
    qed
    then show ?thesis by auto
  qed
  with Node show ?case by (auto simp: BST_keys_list)
qed

lemma hashFunction_loop_fold:
  "sz \<noteq> 0 \<Longrightarrow> hashFunction_loop sz k h = Inr (fold (\<lambda>c h. (h * 131 + of_char c) mod sz) k h)"
  by (induction k arbitrary: h) simp_all

lemma hashFunction_hidx: "ht_size t \<noteq> 0 \<Longrightarrow> hashFunction t k = Inr (hidx (ht_size t) k)"
  by (simp add: hashFunction_def hidx_def hashFunction_loop_fold)

lemma fold_hash_less:
  fixes sz h :: "64 word"
  shows "sz \<noteq> 0 \<Longrightarrow> h < sz \<Longrightarrow> fold (\<lambda>c h. (h * 131 + of_char c) mod sz) k h < sz"
proof (induction k arbitrary: h)
  case Nil
  then show ?case by simp
next
  case (Cons c k)
  from Cons.prems(1) have "(h * 131 + of_char c) mod sz < sz"
    by (simp add: word_mod_less_divisor word_neq_0_conv)
  from Cons.IH[OF Cons.prems(1) this] show ?case by simp
qed

lemma hidx_less: "sz \<noteq> 0 \<Longrightarrow> hidx sz k < sz"
  unfolding hidx_def by (rule fold_hash_less) (simp_all add: word_neq_0_conv)

lemma unat_of_char: "unat (of_char c :: 64 word) = of_char c"
proof -
  have "(of_char c :: nat) < 256" by (rule nat_of_char_less_256) 
  moreover have "(256 :: nat) \<le> 2 ^ 64" by simp
  ultimately have lt: "(of_char c :: nat) < 2 ^ 64" by (rule less_le_trans)
  have "(of_char c :: 64 word) = of_nat (of_char c)" by (simp only: of_nat_of_char)
  then have "unat (of_char c :: 64 word) = (of_char c :: nat) mod 2 ^ 64"
    by (simp only: unat_of_nat) simp
  with lt show ?thesis by simp
qed

lemma hash_ref_loop_word:
  fixes sz h :: "64 word"
  shows "sz \<noteq> 0 \<Longrightarrow>
   unat (fold (\<lambda>c h. (h * 131 + of_char c) mod sz) k h) =
     hash_ref_loop (unat sz) (map of_char k) (unat h)"
proof (induction k arbitrary: h)
  case Nil
  show ?case by simp
next
  case (Cons c k)
  have "unat ((h * 131 + of_char c) mod sz) = ((unat h * 131 + of_char c) mod 2 ^ 64) mod unat sz"
    by (simp add: unat_mod unat_word_ariths unat_of_char mod_simps)
  with Cons.IH[OF Cons.prems, of "(h * 131 + of_char c) mod sz"] show ?case by simp
qed

lemma hash_ref_hidx: "sz \<noteq> 0 \<Longrightarrow> unat (hidx sz k) = hash_ref (unat sz) k"
  by (simp add: hidx_def hash_ref_def hash_ref_loop_word)

lemma ht_inv_new: "HashTable_new sz = Inr t \<Longrightarrow> ht_inv sz [] t"
  by (auto simp: HashTable_new_def ht_inv_def sum_list_replicate)

lemma sum_list_map_update:
  fixes f :: "'a \<Rightarrow> nat"
  assumes "i < length xs"
  shows "sum_list (map f (xs[i := y])) + f (xs ! i) = sum_list (map f xs) + f y"
proof -
  from assms have "f (xs ! i) \<le> sum_list (map f xs)"
    by (intro member_le_sum_list) (auto simp: image_iff intro!: bexI[of _ "xs ! i"])
  moreover have "sum_list (map f (xs[i := y])) = sum_list (map f xs) + f y - f (xs ! i)"
    using assms by (simp add: map_update sum_list_update)
  ultimately show ?thesis by simp
qed

lemma hidx_index: "sz \<noteq> 0 \<Longrightarrow> unat (hidx sz k) < unat sz"
  using hidx_less[of sz k] by (simp add: word_less_nat_alt)

lemma ht_inv_insert:
  assumes "sz \<noteq> 0" "ht_inv sz data t"
  shows "\<exists>t'. HashTable_insert t obj = Inr t' \<and> ht_inv sz (data @ [obj]) t'"
proof -
  let ?i = "unat (hidx sz (name obj))"
  let ?b = "buckets t ! ?i"
  let ?f = "\<lambda>b :: Object list. length b - 1"
  from assms have sz: "ht_size t = sz" and len: "length (buckets t) = unat sz"
    and bs: "\<And>i. i < unat sz \<Longrightarrow> buckets t ! i = filter (\<lambda>obj. unat (hidx sz (name obj)) = i) data"
    and cc: "collisionCount t = of_nat (sum_list (map ?f (buckets t)))"
    by (auto simp: ht_inv_def)
  note i = hidx_index[OF assms(1), of "name obj"]
  let ?t' = "t\<lparr>collisionCount := (if ?b \<noteq> [] then collisionCount t + 1 else collisionCount t),
                buckets := (buckets t)[?i := ?b @ [obj]]\<rparr>"
  have ins: "HashTable_insert t obj = Inr ?t'"
    using assms(1) sz len i by (simp add: HashTable_insert_def hashFunction_hidx)
  have "sum_list (map ?f ((buckets t)[?i := ?b @ [obj]])) + ?f ?b = sum_list (map ?f (buckets t)) + ?f (?b @ [obj])"
    using i len by (intro sum_list_map_update) simp
  then have "sum_list (map ?f ((buckets t)[?i := ?b @ [obj]])) =
      sum_list (map ?f (buckets t)) + (if ?b \<noteq> [] then 1 else 0)"
    by (cases ?b) auto
  then have c': "collisionCount ?t' = of_nat (sum_list (map ?f (buckets ?t')))"
    using cc by simp
  have "buckets ?t' ! j = filter (\<lambda>obj. unat (hidx sz (name obj)) = j) (data @ [obj])"
    if "j < unat sz" for j
    using that bs[OF that] len by (cases "j = ?i") auto
  with c' sz len have "ht_inv sz (data @ [obj]) ?t'"
    unfolding ht_inv_def by simp
  with ins show ?thesis by blast
qed

lemma ht_inv_insert_all:
  assumes "sz \<noteq> 0" "ht_inv sz pre t"
  shows "\<exists>t'. HashTable_insert_all t data = Inr t' \<and> ht_inv sz (pre @ data) t'"
  using assms(2)
proof (induction data arbitrary: pre t)
  case Nil
  then show ?case by simp
next
  case (Cons obj data)
  from ht_inv_insert[OF assms(1) Cons.prems, of obj] obtain t1 where
    t1: "HashTable_insert t obj = Inr t1" "ht_inv sz (pre @ [obj]) t1" by blast
  from Cons.IH[OF t1(2)] t1(1) show ?case by simp
qed

lemma HashTable_build_inv:
  "sz \<noteq> 0 \<Longrightarrow> \<exists>t. HashTable_build sz data = Inr t \<and> ht_inv sz data t"
  using ht_inv_insert_all[of sz "[]" _ data] ht_inv_new[of sz]
  by (auto simp: HashTable_build_def HashTable_new_def)

lemma bucket_scan_filter:
  "bucket_scan b k result = result @ filter (\<lambda>obj. name obj = k) b"
  by (induction b arbitrary: result) simp_all

lemma ht_inv_search:
  assumes "sz \<noteq> 0" "ht_inv sz data t"
  shows "HashTable_search t k = Inr (filter (\<lambda>obj. name obj = k) data)"
proof -
  note i = hidx_index[OF assms(1), of k]
  from assms(2) i have b: "buckets t ! unat (hidx sz k) =
      filter (\<lambda>obj. unat (hidx sz (name obj)) = unat (hidx sz k)) data"
    by (simp add: ht_inv_def)
  have "filter (\<lambda>obj. name obj = k) (filter (\<lambda>obj. unat (hidx sz (name obj)) = unat (hidx sz k)) data)
      = filter (\<lambda>obj. name obj = k) data"
    by (auto simp: filter_filter intro: filter_cong)
  with assms i b show ?thesis
    by (simp add: HashTable_search_def hashFunction_hidx ht_inv_def bucket_scan_filter)
qed

lemma ht_inv_same_bucket:
  assumes "sz \<noteq> 0" "ht_inv sz data t" "\<forall>obj \<in> set data. hidx sz (name obj) = idx"
    "idx < sz"
  shows "getCollisionCount t = of_nat (length data - 1)"
proof -
  let ?f = "\<lambda>b :: Object list. length b - 1"
  from assms(4) have j: "unat idx < unat sz" by (simp add: word_less_nat_alt)
  from assms(2) have len: "length (buckets t) = unat sz"
    and bs: "\<And>i. i < unat sz \<Longrightarrow> buckets t ! i = filter (\<lambda>obj. unat (hidx sz (name obj)) = i) data"
    and cc: "collisionCount t = of_nat (sum_list (map ?f (buckets t)))"
    by (auto simp: ht_inv_def)
  have nth: "?f (buckets t ! i) = (if i = unat idx then length data - 1 else 0)" if "i < unat sz" for i
  proof (cases "i = unat idx")
    case True
    with assms(3) have "filter (\<lambda>obj. unat (hidx sz (name obj)) = i) data = data"
      by (auto intro: filter_True)
    with bs[OF that] True show ?thesis by simp
  next
    case False
    with assms(3) have "filter (\<lambda>obj. unat (hidx sz (name obj)) = i) data = []"
      by (auto simp: filter_empty_conv)
    with bs[OF that] False show ?thesis by simp
  qed
  have "sum_list (map ?f (buckets t)) = (\<Sum>i = 0..<unat sz. ?f (buckets t ! i))"
    using len by (simp add: sum_list_sum_nth)
  also have "\<dots> = (\<Sum>i = 0..<unat sz. if i = unat idx then length data - 1 else 0)"
  proof (rule sum.cong[OF refl])
    fix x assume "x \<in> {0..<unat sz}"
    then have "x < unat sz" by simp
    from nth[OF this] show "?f (buckets t ! x) = (if x = unat idx then length data - 1 else 0)" .
  qed
  also have "\<dots> = length data - 1" using j by simp
  finally show ?thesis using cc by (simp add: getCollisionCount_def)
qed

subsection \<open>Inserts one after the other\<close>

lemma RB_insert_all_append:
  "RB_insert_all t (xs @ ys) =
     (case RB_insert_all t xs of
        None \<Rightarrow> None
      | Some (Inl e) \<Rightarrow> Some (Inl e)
      | Some (Inr t') \<Rightarrow> RB_insert_all t' ys)"
  by (induction xs arbitrary: t) (auto split: option.splits sum.splits)

lemma RB_build_snoc:
  "RB_build data = Some (Inr t) \<Longrightarrow> RB_build (data @ [obj]) = RB_insert t obj"
  by (simp add: RB_build_def RB_insert_all_append split: option.splits sum.splits)

lemma root_black_iff: "root_black T \<longleftrightarrow> T \<noteq> Leaf \<and> color_of T = BLACK"
  by (cases T) auto

lemma first_insert_as_fixup:
  assumes "root t = None"
  shows "RB_insert t obj =
     (case new_Node t (name obj) obj RED None of
        (t1, node) \<Rightarrow> insertFix (t1\<lparr>root := node\<rparr>) node)"
  using assms
  by (subst insertFix.simps)
     (simp add: RB_insert_def new_Node_def insertFix_cond_def set_color_def store_def)

lemma attach_RED:
  assumes "attach t obj par = Inr (t2, node)"
  shows "get_color t2 node = Inr RED"
proof (cases par)
  case None
  with assms show ?thesis by (simp add: attach_def new_Node_def load_def seq_def)
next
  case (Some a)
  with assms show ?thesis
    by (auto simp: attach_def new_Node_def load_def seq_def store_def accessors nth_append
        less_Suc_eq split: if_splits)
qed

lemma sorted_wrt_less_distinct: "sorted_wrt (<) (xs :: string list) \<Longrightarrow> distinct xs"
  by (induction xs) auto

lemma hashFunction_loop_hidx: "sz \<noteq> 0 \<Longrightarrow> hashFunction_loop sz k 0 = Inr (hidx sz k)"
  by (simp add: hidx_def hashFunction_loop_fold)

section \<open>The claims\<close>

subsection \<open>Runs on the example data\<close>

lemma example_two_build: "RB_build (butlast example_data) = Some (Inr example_two)"
  by code_simp

lemma example_build:
  "RB_build example_data =
     Some (Inr \<lparr>nodes =
       [\<lparr>key = ''a'', vals = [\<lparr>obj_id = 1, name = ''a'', obj_value = 0\<rparr>,
                               \<lparr>obj_id = 3, name = ''a'', obj_value = 1\<rparr>],
          color = BLACK, left = None, right = Some 1, parent = None\<rparr>,
        \<lparr>key = ''b'', vals = [\<lparr>obj_id = 2, name = ''b'', obj_value = 0\<rparr>],
          color = RED, left = None, right = None, parent = Some 0\<rparr>],
       root = Some 0\<rparr>)"
  by code_simp

lemma example_search:
  "RB_search \<lparr>nodes =
       [\<lparr>key = ''a'', vals = [\<lparr>obj_id = 1, name = ''a'', obj_value = 0\<rparr>,
                               \<lparr>obj_id = 3, name = ''a'', obj_value = 1\<rparr>],
          color = BLACK, left = None, right = Some 1, parent = None\<rparr>,
        \<lparr>key = ''b'', vals = [\<lparr>obj_id = 2, name = ''b'', obj_value = 0\<rparr>],
          color = RED, left = None, right = None, parent = Some 0\<rparr>],
       root = Some 0\<rparr> ''a'' =
     Some (Inr [\<lparr>obj_id = 1, name = ''a'', obj_value = 0\<rparr>, \<lparr>obj_id = 3, name = ''a'', obj_value = 1\<rparr>])"
  "RB_search \<lparr>nodes =
       [\<lparr>key = ''a'', vals = [\<lparr>obj_id = 1, name = ''a'', obj_value = 0\<rparr>,
                               \<lparr>obj_id = 3, name = ''a'', obj_value = 1\<rparr>],
          color = BLACK, left = None, right = Some 1, parent = None\<rparr>,
        \<lparr>key = ''b'', vals = [\<lparr>obj_id = 2, name = ''b'', obj_value = 0\<rparr>],
          color = RED, left = None, right = None, parent = Some 0\<rparr>],
       root = Some 0\<rparr> ''c'' = Some (Inr [])"
  by code_simp+

lemma example_descent:
  "insert_loop example_two \<lparr>obj_id = 4, name = ''c'', obj_value = 0\<rparr> (root example_two) None =
      Some (Inr (Attach (Some 1)))"
  by code_simp

lemma example_attach:
  "attach example_two \<lparr>obj_id = 4, name = ''c'', obj_value = 0\<rparr> (Some 1) =
      Inr (example_attached, Some 2)"
  by code_simp

lemma example_empty_build: "RB_build [] = Some (Inr RedBlackTree_new)"
  by (simp add: RB_build_def)

lemma example_two_tree:
  "RB_tree example_two
     (Branch Leaf 0 ''a'' [\<lparr>obj_id = 1, name = ''a'', obj_value = 0\<rparr>] BLACK
        (Branch Leaf 1 ''b'' [\<lparr>obj_id = 2, name = ''b'', obj_value = 0\<rparr>] RED Leaf))"
  by (simp add: RB_tree_def example_two_def)

lemma example_two_rotate:
  "rotateLeft example_two (Some 0) =
     Inr \<lparr>nodes =
        [\<lparr>key = ''a'', vals = [\<lparr>obj_id = 1, name = ''a'', obj_value = 0\<rparr>],
           color = BLACK, left = None, right = None, parent = Some 1\<rparr>,
         \<lparr>key = ''b'', vals = [\<lparr>obj_id = 2, name = ''b'', obj_value = 0\<rparr>],
           color = RED, left = Some 0, right = None, parent = None\<rparr>],
      root = Some 1\<rparr>"
  by code_simp

lemma example_attached_state: "fix_state example_attached (Some 2)"
proof (rule fix_state.start)
  show "RB_build (butlast example_data) = Some (Inr example_two)" by (rule example_two_build)
  show "root example_two \<noteq> None" by (simp add: example_two_def)
  show "insert_loop example_two \<lparr>obj_id = 4, name = ''c'', obj_value = 0\<rparr> (root example_two) None =
      Some (Inr (Attach (Some 1)))"
    by (rule example_descent)
  show "attach example_two \<lparr>obj_id = 4, name = ''c'', obj_value = 0\<rparr> (Some 1) =
      Inr (example_attached, Some 2)"
    by (rule example_attach)
qed

subsection \<open>C1: the red-black invariants after every insert\<close>

text \<open>
  Claim C1. For the balanced tree, after every insert the red-black invariants hold:
  the root is \<^verbatim>\<open>BLACK\<close>, no \<^verbatim>\<open>RED\<close> node has a \<^verbatim>\<open>RED\<close> child, and every path from a
  node to a null child below it passes the same number of \<^verbatim>\<open>BLACK\<close> nodes; new nodes
  are inserted \<^verbatim>\<open>RED\<close> and fixed up at once.

  Let \<open>t\<close> be any tree built by inserts from the empty tree. Then the insert of any
  record \<open>obj\<close> returns, without error, a store \<open>t'\<close> that lays out a tree \<open>T\<close> with a
  \<^verbatim>\<open>BLACK\<close> root, no \<^verbatim>\<open>RED\<close> node with a \<^verbatim>\<open>RED\<close> child, and uniform black counts at
  every node. When \<open>t\<close> is not empty and the descent ends at a null child, the node hung
  there is \<^verbatim>\<open>RED\<close> and what \<^verbatim>\<open>insert\<close> returns is what \<^verbatim>\<open>insertFix\<close> returns on it.
  The first node of a tree is made \<^verbatim>\<open>BLACK\<close> by \<^verbatim>\<open>insert\<close> itself, with no call of
  \<^verbatim>\<open>insertFix\<close>; the store is the one that \<^verbatim>\<open>insertFix\<close> would return on the same
  node made \<^verbatim>\<open>RED\<close>.
\<close>

theorem RB_invariants_after_insert:
  assumes "RB_build data = Some (Inr t)"
  shows "(\<exists>t' T. RB_insert t obj = Some (Inr t') \<and> RB_tree t' T \<and>
            root_black T \<and> no_red_red T \<and> uniform_black T) \<and>
         (\<forall>par t2 node.
            root t \<noteq> None \<and> insert_loop t obj (root t) None = Some (Inr (Attach par)) \<and>
            attach t obj par = Inr (t2, node) \<longrightarrow>
            get_color t2 node = Inr RED \<and> RB_insert t obj = insertFix t2 node) \<and>
         (root t = None \<longrightarrow>
            RB_insert t obj =
              (case new_Node t (name obj) obj RED None of
                 (t1, node) \<Rightarrow> insertFix (t1\<lparr>root := node\<rparr>) node))"
proof -
  from RB_build_inv[of "data @ [obj]"] obtain t' T where
    r: "RB_build (data @ [obj]) = Some (Inr t')" "rb_inv (data @ [obj]) t' T" "T \<noteq> Leaf" by auto
  from r(1) RB_build_snoc[OF assms, of obj] have "RB_insert t obj = Some (Inr t')" by simp
  moreover from r(2,3) have "RB_tree t' T" "root_black T" "no_red_red T" "uniform_black T"
    by (simp_all add: rb_inv_def rb_good_def root_black_iff invh_uniform_black)
  ultimately have 1: "\<exists>t' T. RB_insert t obj = Some (Inr t') \<and> RB_tree t' T \<and>
            root_black T \<and> no_red_red T \<and> uniform_black T" by blast
  have 2: "get_color t2 node = Inr RED \<and> RB_insert t obj = insertFix t2 node"
    if "root t \<noteq> None \<and> insert_loop t obj (root t) None = Some (Inr (Attach par)) \<and>
            attach t obj par = Inr (t2, node)" for par t2 node
    using that attach_RED[of t obj par t2 node] by (auto simp: RB_insert_def)
  from 1 2 first_insert_as_fixup[of t obj] show ?thesis by blast
qed

text \<open>
  For the tree of the first two example records and a record with the new key \<open>''c''\<close>,
  and for the empty tree and the first example record.
\<close>

theorem RB_invariants_after_insert_witness:
  "RB_build (butlast example_data) = Some (Inr example_two) \<and>
   (\<exists>t' T. RB_insert example_two \<lparr>obj_id = 4, name = ''c'', obj_value = 0\<rparr> = Some (Inr t') \<and>
      RB_tree t' T \<and> root_black T \<and> no_red_red T \<and> uniform_black T) \<and>
   get_color example_attached (Some 2) = Inr RED \<and>
   RB_insert example_two \<lparr>obj_id = 4, name = ''c'', obj_value = 0\<rparr> =
     insertFix example_attached (Some 2) \<and>
   RB_build [] = Some (Inr RedBlackTree_new) \<and>
   (\<exists>t' T. RB_insert RedBlackTree_new \<lparr>obj_id = 1, name = ''a'', obj_value = 0\<rparr> = Some (Inr t') \<and>
      RB_tree t' T \<and> root_black T \<and> no_red_red T \<and> uniform_black T) \<and>
   RB_insert RedBlackTree_new \<lparr>obj_id = 1, name = ''a'', obj_value = 0\<rparr> =
     insertFix \<lparr>nodes = [\<lparr>key = ''a'', vals = [\<lparr>obj_id = 1, name = ''a'', obj_value = 0\<rparr>],
                           color = RED, left = None, right = None, parent = None\<rparr>],
                root = Some 0\<rparr> (Some 0)"
proof -
  note a = RB_invariants_after_insert[OF example_two_build,
      of "\<lparr>obj_id = 4, name = ''c'', obj_value = 0\<rparr>"]
  note b = RB_invariants_after_insert[OF example_empty_build,
      of "\<lparr>obj_id = 1, name = ''a'', obj_value = 0\<rparr>"]
  have r: "root example_two \<noteq> None" by (simp add: example_two_def)
  from a r example_descent example_attach
  have "get_color example_attached (Some 2) = Inr RED \<and>
      RB_insert example_two \<lparr>obj_id = 4, name = ''c'', obj_value = 0\<rparr> =
        insertFix example_attached (Some 2)"
    by blast
  moreover from b have "RB_insert RedBlackTree_new \<lparr>obj_id = 1, name = ''a'', obj_value = 0\<rparr> =
     insertFix \<lparr>nodes = [\<lparr>key = ''a'', vals = [\<lparr>obj_id = 1, name = ''a'', obj_value = 0\<rparr>],
                           color = RED, left = None, right = None, parent = None\<rparr>],
                root = Some 0\<rparr> (Some 0)"
    by (simp add: RedBlackTree_new_def new_Node_def)
  ultimately show ?thesis using a b example_two_build example_empty_build by blast
qed

subsection \<open>C2: the ordering invariant of both trees\<close>

text \<open>
  Claim C2. For both tree variants, after any sequence of inserts, every node has the
  keys of its left subtree below its key and the keys of its right subtree above it;
  in particular the rotations of the balanced tree never change the order of the keys.

  For every list \<open>data\<close> of records: the ordered tree built from it is ordered; the
  balanced tree is built without error and the tree it lays out is ordered; and a
  rotation, to the left or to the right, at any node \<open>x\<close> of any tree laid out in a
  store, when it returns without error, leaves a store that lays out a tree with the
  same keys and values in the same order from left to right.
\<close>

theorem bst_ordering_after_inserts:
  "BST_ordered (BST_build data) \<and>
   (\<exists>t T. RB_build data = Some (Inr t) \<and> RB_tree t T \<and> bst_ordered T) \<and>
   (\<forall>t T x t'. RB_tree t T \<and> x \<in> set (addrs_of T) \<and>
       (rotateLeft t (Some x) = Inr t' \<or> rotateRight t (Some x) = Inr t') \<longrightarrow>
       (\<exists>T'. RB_tree t' T' \<and> entries T' = entries T))"
proof -
  from RB_build_inv[of data] have "\<exists>t T. RB_build data = Some (Inr t) \<and> RB_tree t T \<and> bst_ordered T"
    by (auto simp: rb_inv_def)
  moreover have "\<exists>T'. RB_tree t' T' \<and> entries T' = entries T"
    if "RB_tree t T \<and> x \<in> set (addrs_of T) \<and>
       (rotateLeft t (Some x) = Inr t' \<or> rotateRight t (Some x) = Inr t')" for t T x t'
    using that rotateLeft_entries[of t T x t'] rotateRight_entries[of t T x t'] by blast
  ultimately show ?thesis using BST_build_ordered[of data] by blast
qed

text \<open>For the example records, and the left rotation at the root of the two-node tree.\<close>

theorem bst_ordering_after_inserts_witness:
  "BST_ordered (BST_build example_data) \<and>
   (\<exists>t T. RB_build example_data = Some (Inr t) \<and> RB_tree t T \<and> bst_ordered T) \<and>
   (\<exists>T'. RB_tree \<lparr>nodes =
        [\<lparr>key = ''a'', vals = [\<lparr>obj_id = 1, name = ''a'', obj_value = 0\<rparr>],
           color = BLACK, left = None, right = None, parent = Some 1\<rparr>,
         \<lparr>key = ''b'', vals = [\<lparr>obj_id = 2, name = ''b'', obj_value = 0\<rparr>],
           color = RED, left = Some 0, right = None, parent = None\<rparr>],
      root = Some 1\<rparr> T' \<and>
      entries T' = [(''a'', [\<lparr>obj_id = 1, name = ''a'', obj_value = 0\<rparr>]),
                    (''b'', [\<lparr>obj_id = 2, name = ''b'', obj_value = 0\<rparr>])])"
proof -
  note c = bst_ordering_after_inserts[of example_data]
  from c have rot: "\<And>t T x t'. RB_tree t T \<Longrightarrow> x \<in> set (addrs_of T) \<Longrightarrow>
      rotateLeft t (Some x) = Inr t' \<Longrightarrow> \<exists>T'. RB_tree t' T' \<and> entries T' = entries T"
    by blast
  from rot[OF example_two_tree _ example_two_rotate] c show ?thesis by simp
qed

subsection \<open>C3: many records under one key\<close>

text \<open>
  Claim C3. For every structure and every N, inserting N records that all share one
  key and then searching that key returns exactly those N records, in insertion order,
  and no others; in the trees, records with a key already present are appended to the
  values of its node, and no second node with that key is made.

  Let the records \<open>batch\<close> all have the key \<open>k\<close> and be inserted after any records
  \<open>pre\<close> with other keys. Then the search for \<open>k\<close> returns \<open>batch\<close>, as a sequence, in
  the ordered tree, in the balanced tree, and in a hash table with at least one bucket;
  and in both trees no key occurs at two nodes.
\<close>

theorem multi_value_same_key:
  assumes "\<forall>obj \<in> set pre. name obj \<noteq> k" "\<forall>obj \<in> set batch. name obj = k"
  shows "BST_search (BST_build (pre @ batch)) k = batch \<and>
         distinct (BST_key_list (BST_build (pre @ batch))) \<and>
         (\<exists>t T. RB_build (pre @ batch) = Some (Inr t) \<and> RB_search t k = Some (Inr batch) \<and>
                RB_tree t T \<and> distinct (map fst (entries T))) \<and>
         (sz \<noteq> 0 \<longrightarrow>
           (\<exists>h. HashTable_build sz (pre @ batch) = Inr h \<and> HashTable_search h k = Inr batch))"
proof -
  from assms have f: "filter (\<lambda>obj. name obj = k) (pre @ batch) = batch"
    by (auto simp: filter_empty_conv intro: filter_True)
  have 1: "BST_search (BST_build (pre @ batch)) k = batch"
    by (simp only: BST_build_search f)
  have 2: "distinct (BST_key_list (BST_build (pre @ batch)))"
    by (rule BST_ordered_distinct[OF BST_build_ordered])
  from RB_build_inv[of "pre @ batch"] obtain t T where
    r: "RB_build (pre @ batch) = Some (Inr t)" "rb_inv (pre @ batch) t T" by blast
  from r(2) have tr: "RB_tree t T" and o: "bst_ordered T"
    and s: "tsearch T k = filter (\<lambda>obj. name obj = k) (pre @ batch)"
    by (simp_all add: rb_inv_def)
  from o have "distinct (map fst (entries T))"
    unfolding bst_ordered_sorted by (rule sorted_wrt_less_distinct)
  have 3: "\<exists>t T. RB_build (pre @ batch) = Some (Inr t) \<and> RB_search t k = Some (Inr batch) \<and>
                RB_tree t T \<and> distinct (map fst (entries T))"
    using r(1) tr RB_search_sim[OF tr, of k] s f \<open>distinct (map fst (entries T))\<close> by auto
  have 4: "\<exists>h. HashTable_build sz (pre @ batch) = Inr h \<and> HashTable_search h k = Inr batch"
    if "sz \<noteq> 0"
    using HashTable_build_inv[OF that, of "pre @ batch"] ht_inv_search[OF that, of "pre @ batch" _ k] f
    by auto
  from 1 2 3 4 show ?thesis by blast
qed

text \<open>One record with the key \<open>''b''\<close>, then two with the key \<open>''a''\<close>; three buckets.\<close>

theorem multi_value_same_key_witness:
  "BST_search (BST_build [\<lparr>obj_id = 2, name = ''b'', obj_value = 0\<rparr>,
                          \<lparr>obj_id = 1, name = ''a'', obj_value = 0\<rparr>,
                          \<lparr>obj_id = 3, name = ''a'', obj_value = 1\<rparr>]) ''a'' =
     [\<lparr>obj_id = 1, name = ''a'', obj_value = 0\<rparr>, \<lparr>obj_id = 3, name = ''a'', obj_value = 1\<rparr>] \<and>
   (\<exists>t T. RB_build [\<lparr>obj_id = 2, name = ''b'', obj_value = 0\<rparr>,
                     \<lparr>obj_id = 1, name = ''a'', obj_value = 0\<rparr>,
                     \<lparr>obj_id = 3, name = ''a'', obj_value = 1\<rparr>] = Some (Inr t) \<and>
      RB_search t ''a'' =
        Some (Inr [\<lparr>obj_id = 1, name = ''a'', obj_value = 0\<rparr>,
                   \<lparr>obj_id = 3, name = ''a'', obj_value = 1\<rparr>]) \<and>
      RB_tree t T \<and> distinct (map fst (entries T))) \<and>
   (\<exists>h. HashTable_build 3 [\<lparr>obj_id = 2, name = ''b'', obj_value = 0\<rparr>,
                           \<lparr>obj_id = 1, name = ''a'', obj_value = 0\<rparr>,
                           \<lparr>obj_id = 3, name = ''a'', obj_value = 1\<rparr>] = Inr h \<and>
      HashTable_search h ''a'' =
        Inr [\<lparr>obj_id = 1, name = ''a'', obj_value = 0\<rparr>, \<lparr>obj_id = 3, name = ''a'', obj_value = 1\<rparr>])"
  using multi_value_same_key[of "[\<lparr>obj_id = 2, name = ''b'', obj_value = 0\<rparr>]" "''a''"
      "[\<lparr>obj_id = 1, name = ''a'', obj_value = 0\<rparr>, \<lparr>obj_id = 3, name = ''a'', obj_value = 1\<rparr>]" 3]
  by simp

subsection \<open>C4: the four searches agree\<close>

text \<open>
  Claim C4. For every list of records and every key, after the same records have been
  inserted into the ordered tree, the balanced tree and the hash table, the search for
  the key in each of them and the linear scan over the records return the same multiset
  of records, identified by their ids.

  The hash table has at least one bucket. (The results are in fact equal as sequences,
  each being the records with the key in the order of insertion: lemmas
  \<open>BST_build_search\<close>, \<open>RB_build_inv\<close> with \<open>RB_search_sim\<close>, and \<open>ht_inv_search\<close>.)
\<close>

theorem search_agrees_across_structures:
  "image_mset obj_id (mset (BST_search (BST_build data) k)) =
     image_mset obj_id (mset (linearSearch data k)) \<and>
   (\<exists>t r. RB_build data = Some (Inr t) \<and> RB_search t k = Some (Inr r) \<and>
      image_mset obj_id (mset r) = image_mset obj_id (mset (linearSearch data k))) \<and>
   (sz \<noteq> 0 \<longrightarrow>
     (\<exists>h r. HashTable_build sz data = Inr h \<and> HashTable_search h k = Inr r \<and>
        image_mset obj_id (mset r) = image_mset obj_id (mset (linearSearch data k))))"
proof -
  have lin: "linearSearch data k = filter (\<lambda>obj. name obj = k) data"
    by (simp add: linearSearch_def linearSearch_loop_filter)
  from RB_build_inv[of data] obtain t T where
    r: "RB_build data = Some (Inr t)" "rb_inv data t T" by blast
  from r(2) have "RB_search t k = Some (Inr (filter (\<lambda>obj. name obj = k) data))"
    using RB_search_sim[of t T k] by (simp add: rb_inv_def)
  with r(1) have 2: "\<exists>t r. RB_build data = Some (Inr t) \<and> RB_search t k = Some (Inr r) \<and>
      image_mset obj_id (mset r) = image_mset obj_id (mset (linearSearch data k))"
    by (auto simp: lin)
  have 3: "\<exists>h r. HashTable_build sz data = Inr h \<and> HashTable_search h k = Inr r \<and>
        image_mset obj_id (mset r) = image_mset obj_id (mset (linearSearch data k))"
    if "sz \<noteq> 0"
    using HashTable_build_inv[OF that, of data] ht_inv_search[OF that, of data _ k]
    by (auto simp: lin)
  from 2 3 show ?thesis by (simp add: BST_build_search lin)
qed

text \<open>For the example records, the key \<open>''a''\<close> and three buckets.\<close>

theorem search_agrees_across_structures_witness:
  "image_mset obj_id (mset (BST_search (BST_build example_data) ''a'')) =
     image_mset obj_id (mset (linearSearch example_data ''a'')) \<and>
   linearSearch example_data ''a'' =
     [\<lparr>obj_id = 1, name = ''a'', obj_value = 0\<rparr>, \<lparr>obj_id = 3, name = ''a'', obj_value = 1\<rparr>] \<and>
   (\<exists>t r. RB_build example_data = Some (Inr t) \<and> RB_search t ''a'' = Some (Inr r) \<and>
      image_mset obj_id (mset r) = image_mset obj_id (mset (linearSearch example_data ''a''))) \<and>
   (\<exists>h r. HashTable_build 3 example_data = Inr h \<and> HashTable_search h ''a'' = Inr r \<and>
        image_mset obj_id (mset r) = image_mset obj_id (mset (linearSearch example_data ''a'')))"
proof -
  have "linearSearch example_data ''a'' =
     [\<lparr>obj_id = 1, name = ''a'', obj_value = 0\<rparr>, \<lparr>obj_id = 3, name = ''a'', obj_value = 1\<rparr>]"
    by (simp add: linearSearch_def example_data_def)
  with search_agrees_across_structures[of example_data "''a''" 3] show ?thesis by simp
qed

subsection \<open>C5: a hash table with no buckets\<close>

text \<open>
  The claim is that constructing the hash table with bucket count 0 fails at
  construction. The constructor has no check: with 0 it returns a table with no
  buckets, and it is the first insert that fails.
\<close>

theorem HashTable_new_zero_counterexample:
  "HashTable_new 0 = Inr \<lparr>ht_size = 0, buckets = [], collisionCount = 0\<rparr> \<and>
   HashTable_insert \<lparr>ht_size = 0, buckets = [], collisionCount = 0\<rparr>
     \<lparr>obj_id = 1, name = ''a'', obj_value = 0\<rparr> = Inl DivisionByZero"
  by (simp add: HashTable_new_def HashTable_insert_def hashFunction_def)

text \<open>
  Claim C5, amended. Constructing the hash table checks nothing and succeeds for every
  bucket count, 0 included, with that many empty buckets and a zero counter. On the
  table with no buckets every insert and every search fails: with a division by zero
  in the hash function when the key is not empty, and with a bucket index out of range
  when it is.
\<close>

theorem HashTable_new_unchecked:
  "HashTable_new sz =
     Inr \<lparr>ht_size = sz, buckets = replicate (unat sz) [], collisionCount = 0\<rparr> \<and>
   HashTable_insert \<lparr>ht_size = 0, buckets = [], collisionCount = 0\<rparr> obj =
     Inl (if name obj = [] then IndexOutOfRange else DivisionByZero) \<and>
   HashTable_search \<lparr>ht_size = 0, buckets = [], collisionCount = 0\<rparr> k =
     Inl (if k = [] then IndexOutOfRange else DivisionByZero)"
proof -
  have "hashFunction_loop 0 k' 0 = (if k' = [] then Inr 0 else Inl DivisionByZero)" for k'
    by (cases k') simp_all
  then show ?thesis
    by (simp add: HashTable_new_def HashTable_insert_def HashTable_search_def hashFunction_def)
qed

subsection \<open>C6: counting collisions\<close>

text \<open>
  Claim C6. The collision counter goes up by one on an insert if and only if the
  bucket of the record is not empty before it, whatever the keys in it, and the record
  is appended to the bucket in any case; so inserting \<open>count\<close> records whose names all
  hash to one bucket index gives a collision count of \<open>count - 1\<close>.

  The first part is for any table whose size is not zero and is the length of its
  bucket vector; the second for the table built from a non-empty list \<open>data\<close> whose
  names all have the hash \<open>idx\<close>. The counter is a 64-bit word.
\<close>

theorem collision_counting:
  "(ht_size t \<noteq> 0 \<and> length (buckets t) = unat (ht_size t) \<longrightarrow>
      (\<exists>idx t'. hashFunction t (name obj) = Inr idx \<and> HashTable_insert t obj = Inr t' \<and>
         getCollisionCount t' =
           (if buckets t ! unat idx \<noteq> [] then getCollisionCount t + 1 else getCollisionCount t) \<and>
         buckets t' = (buckets t)[unat idx := buckets t ! unat idx @ [obj]])) \<and>
   (sz \<noteq> 0 \<and> data \<noteq> [] \<and> (\<forall>obj \<in> set data. hashFunction_loop sz (name obj) 0 = Inr idx) \<longrightarrow>
      (\<exists>h. HashTable_build sz data = Inr h \<and> getCollisionCount h = of_nat (length data - 1)))"
proof -
  have 1: "\<exists>idx t'. hashFunction t (name obj) = Inr idx \<and> HashTable_insert t obj = Inr t' \<and>
         getCollisionCount t' =
           (if buckets t ! unat idx \<noteq> [] then getCollisionCount t + 1 else getCollisionCount t) \<and>
         buckets t' = (buckets t)[unat idx := buckets t ! unat idx @ [obj]]"
    if nz: "ht_size t \<noteq> 0" and len: "length (buckets t) = unat (ht_size t)"
    using hidx_index[OF nz, of "name obj"] len
    by (simp add: HashTable_insert_def hashFunction_hidx[OF nz] getCollisionCount_def)
  have 2: "\<exists>h. HashTable_build sz data = Inr h \<and> getCollisionCount h = of_nat (length data - 1)"
    if nz: "sz \<noteq> 0" and ne: "data \<noteq> []"
      and same: "\<forall>obj \<in> set data. hashFunction_loop sz (name obj) 0 = Inr idx"
  proof -
    from same have h: "\<forall>obj \<in> set data. hidx sz (name obj) = idx"
      by (simp add: hashFunction_loop_hidx[OF nz])
    from ne obtain obj where "obj \<in> set data" by (cases data) auto
    with h hidx_less[OF nz, of "name obj"] have "idx < sz" by auto
    from HashTable_build_inv[OF nz, of data] obtain h' where
      b: "HashTable_build sz data = Inr h'" "ht_inv sz data h'" by blast
    from ht_inv_same_bucket[OF nz b(2) h \<open>idx < sz\<close>] b(1) show ?thesis by blast
  qed
  from 1 2 show ?thesis by blast
qed

text \<open>
  The keys \<open>''a''\<close> and \<open>''d''\<close> share bucket 1 of three; with one bucket the three
  example records give two collisions.
\<close>

theorem collision_counting_witness:
  "HashTable_build 3 [\<lparr>obj_id = 1, name = ''a'', obj_value = 0\<rparr>] =
     Inr \<lparr>ht_size = 3, buckets = [[], [\<lparr>obj_id = 1, name = ''a'', obj_value = 0\<rparr>], []],
          collisionCount = 0\<rparr> \<and>
   (\<exists>idx t'. hashFunction \<lparr>ht_size = 3,
                 buckets = [[], [\<lparr>obj_id = 1, name = ''a'', obj_value = 0\<rparr>], []],
                 collisionCount = 0\<rparr> ''d'' = Inr idx \<and>
      HashTable_insert \<lparr>ht_size = 3,
                 buckets = [[], [\<lparr>obj_id = 1, name = ''a'', obj_value = 0\<rparr>], []],
                 collisionCount = 0\<rparr> \<lparr>obj_id = 5, name = ''d'', obj_value = 0\<rparr> = Inr t' \<and>
      idx = 1 \<and> getCollisionCount t' = 1) \<and>
   map (\<lambda>obj. hashFunction_loop 1 (name obj) 0) example_data = [Inr 0, Inr 0, Inr 0] \<and>
   (\<exists>h. HashTable_build 1 example_data = Inr h \<and> getCollisionCount h = 2)"
proof -
  let ?t = "\<lparr>ht_size = 3, buckets = [[], [\<lparr>obj_id = 1, name = ''a'', obj_value = 0\<rparr>], []],
          collisionCount = 0\<rparr>"
  have b: "HashTable_build 3 [\<lparr>obj_id = 1, name = ''a'', obj_value = 0\<rparr>] = Inr ?t"
    by code_simp
  have h: "hashFunction ?t ''d'' = Inr 1"
    by (simp add: hashFunction_def)
  have s: "\<forall>obj \<in> set example_data. hashFunction_loop 1 (name obj) 0 = Inr 0"
    by (simp add: example_data_def)
  have ne: "example_data \<noteq> []" by (simp add: example_data_def)
  have len: "length example_data = 3" by (simp add: example_data_def)
  note c1 = collision_counting[of ?t "\<lparr>obj_id = 5, name = ''d'', obj_value = 0\<rparr>" 1 example_data 0]
  have m: "map (\<lambda>obj. hashFunction_loop 1 (name obj) 0) example_data = [Inr 0, Inr 0, Inr 0]"
    by (simp add: example_data_def)
  from c1 b h s ne len m show ?thesis by (auto simp: getCollisionCount_def)
qed

subsection \<open>C7: the hash function\<close>

text \<open>
  Claim C7. For every key and every bucket count of at least 1, the hash function of
  the table equals the reference definition: from \<open>h = 0\<close>, for each byte \<open>b\<close> of the
  key in order, \<open>h = (h * 131 + b) mod bucket_count\<close>, with an unsigned accumulator of
  fixed width that wraps around; insert and search use the same function, so both map a
  key to the same bucket.

  The width is 64 bits. An insert leaves the size of the table, and so the hash of
  every key, as it was. On a table whose size is not zero and is the length of its
  bucket vector, the search for \<open>k\<close> returns the records with the key \<open>k\<close> of the
  bucket whose index is the reference hash of \<open>k\<close>; the insert of \<open>obj\<close> appends \<open>obj\<close>
  to the bucket whose index is the reference hash of its name and changes no other
  bucket; and the search for that name afterwards looks in the same bucket: it returns
  what it would have returned before, followed by \<open>obj\<close>.
\<close>

theorem hashFunction_matches_reference:
  "(ht_size t \<noteq> 0 \<longrightarrow>
      (\<exists>h. hashFunction t k = Inr h \<and> unat h = hash_ref (unat (ht_size t)) k)) \<and>
   (\<forall>t' obj. HashTable_insert t obj = Inr t' \<longrightarrow> hashFunction t' k = hashFunction t k) \<and>
   (ht_size t \<noteq> 0 \<and> length (buckets t) = unat (ht_size t) \<longrightarrow>
      HashTable_search t k =
        Inr (filter (\<lambda>obj. name obj = k) (buckets t ! hash_ref (unat (ht_size t)) k)) \<and>
      (\<exists>t'. HashTable_insert t obj = Inr t' \<and> ht_size t' = ht_size t \<and>
         buckets t' =
           (buckets t)[hash_ref (unat (ht_size t)) (name obj) :=
              buckets t ! hash_ref (unat (ht_size t)) (name obj) @ [obj]] \<and>
         HashTable_search t' (name obj) =
           Inr (filter (\<lambda>obj'. name obj' = name obj)
                  (buckets t ! hash_ref (unat (ht_size t)) (name obj)) @ [obj])))"
proof -
  have 2: "hashFunction t' k = hashFunction t k" if "HashTable_insert t obj = Inr t'" for t' obj
  proof -
    from that have "ht_size t' = ht_size t"
      by (auto simp: HashTable_insert_def split: sum.splits if_splits)
    then show ?thesis by (simp add: hashFunction_def)
  qed
  have 3: "HashTable_search t k =
        Inr (filter (\<lambda>obj. name obj = k) (buckets t ! hash_ref (unat (ht_size t)) k)) \<and>
      (\<exists>t'. HashTable_insert t obj = Inr t' \<and> ht_size t' = ht_size t \<and>
         buckets t' =
           (buckets t)[hash_ref (unat (ht_size t)) (name obj) :=
              buckets t ! hash_ref (unat (ht_size t)) (name obj) @ [obj]] \<and>
         HashTable_search t' (name obj) =
           Inr (filter (\<lambda>obj'. name obj' = name obj)
                  (buckets t ! hash_ref (unat (ht_size t)) (name obj)) @ [obj]))"
    if nz: "ht_size t \<noteq> 0" and len: "length (buckets t) = unat (ht_size t)"
  proof -
    let ?i = "hash_ref (unat (ht_size t)) (name obj)"
    have ik: "unat (hidx (ht_size t) k') = hash_ref (unat (ht_size t)) k'" for k'
      by (rule hash_ref_hidx[OF nz])
    have lt: "hash_ref (unat (ht_size t)) k' < length (buckets t)" for k'
      using hidx_index[OF nz, of k'] by (simp add: ik len)
    have s: "HashTable_search t k =
        Inr (filter (\<lambda>obj. name obj = k) (buckets t ! hash_ref (unat (ht_size t)) k))"
      using lt[of k] by (simp add: HashTable_search_def hashFunction_hidx[OF nz] ik bucket_scan_filter)
    let ?t' = "t\<lparr>collisionCount := (if buckets t ! ?i \<noteq> [] then collisionCount t + 1 else collisionCount t),
                buckets := (buckets t)[?i := buckets t ! ?i @ [obj]]\<rparr>"
    have ins: "HashTable_insert t obj = Inr ?t'"
      using lt[of "name obj"] by (simp add: HashTable_insert_def hashFunction_hidx[OF nz] ik)
    have nz': "ht_size ?t' \<noteq> 0" using nz by simp
    have "HashTable_search ?t' (name obj) =
           Inr (filter (\<lambda>obj'. name obj' = name obj) (buckets t ! ?i) @ [obj])"
      using lt[of "name obj"]
      by (simp add: HashTable_search_def hashFunction_hidx[OF nz'] ik bucket_scan_filter)
    with s ins show ?thesis by simp
  qed
  have 1: "\<exists>h. hashFunction t k = Inr h \<and> unat h = hash_ref (unat (ht_size t)) k"
    if "ht_size t \<noteq> 0"
    using that by (simp add: hashFunction_hidx hash_ref_hidx)
  from 1 2 3 show ?thesis by blast
qed

text \<open>
  Three buckets, the record with the key \<open>''a''\<close> in bucket 1, and a record with the
  key \<open>''d''\<close>, which has the same hash.
\<close>

theorem hashFunction_matches_reference_witness:
  "hashFunction \<lparr>ht_size = 3, buckets = [[], [\<lparr>obj_id = 1, name = ''a'', obj_value = 0\<rparr>], []],
                  collisionCount = 0\<rparr> ''d'' = Inr 1 \<and>
   hash_ref 3 ''d'' = 1 \<and> hash_ref 3 ''a'' = 1 \<and>
   HashTable_search \<lparr>ht_size = 3, buckets = [[], [\<lparr>obj_id = 1, name = ''a'', obj_value = 0\<rparr>], []],
                  collisionCount = 0\<rparr> ''a'' = Inr [\<lparr>obj_id = 1, name = ''a'', obj_value = 0\<rparr>] \<and>
   (\<exists>t'. HashTable_insert \<lparr>ht_size = 3,
              buckets = [[], [\<lparr>obj_id = 1, name = ''a'', obj_value = 0\<rparr>], []],
              collisionCount = 0\<rparr> \<lparr>obj_id = 5, name = ''d'', obj_value = 0\<rparr> = Inr t' \<and>
      buckets t' = [[], [\<lparr>obj_id = 1, name = ''a'', obj_value = 0\<rparr>,
                         \<lparr>obj_id = 5, name = ''d'', obj_value = 0\<rparr>], []] \<and>
      hashFunction t' ''d'' = Inr 1 \<and>
      HashTable_search t' ''d'' = Inr [\<lparr>obj_id = 5, name = ''d'', obj_value = 0\<rparr>])"
proof -
  let ?t = "\<lparr>ht_size = 3, buckets = [[], [\<lparr>obj_id = 1, name = ''a'', obj_value = 0\<rparr>], []],
                  collisionCount = 0\<rparr>"
  let ?d = "\<lparr>obj_id = 5, name = ''d'', obj_value = 0\<rparr>"
  have h: "hashFunction ?t ''d'' = Inr 1" by code_simp
  have h': "hashFunction ?t ''a'' = Inr 1" by code_simp
  have nz: "ht_size ?t \<noteq> 0" by simp
  have len: "length (buckets ?t) = unat (ht_size ?t)" by simp
  note a = hashFunction_matches_reference[of ?t "''a''" ?d]
  note d = hashFunction_matches_reference[of ?t "''d''" ?d]
  from a nz obtain ha where "hashFunction ?t ''a'' = Inr ha"
    "unat ha = hash_ref (unat (ht_size ?t)) ''a''" by blast
  with h' have ra: "hash_ref 3 ''a'' = 1" by simp
  from d nz obtain hd where "hashFunction ?t ''d'' = Inr hd"
    "unat hd = hash_ref (unat (ht_size ?t)) ''d''" by blast
  with h have rd: "hash_ref 3 ''d'' = 1" by simp
  from a nz len have "HashTable_search ?t ''a'' =
      Inr (filter (\<lambda>obj. name obj = ''a'') (buckets ?t ! hash_ref (unat (ht_size ?t)) ''a''))"
    by blast
  with ra have sa: "HashTable_search ?t ''a'' = Inr [\<lparr>obj_id = 1, name = ''a'', obj_value = 0\<rparr>]"
    by simp
  from d nz len obtain t' where t0: "HashTable_insert ?t ?d = Inr t'"
    "buckets t' =
       (buckets ?t)[hash_ref (unat (ht_size ?t)) (name ?d) :=
          buckets ?t ! hash_ref (unat (ht_size ?t)) (name ?d) @ [?d]]"
    "HashTable_search t' (name ?d) =
       Inr (filter (\<lambda>obj'. name obj' = name ?d)
              (buckets ?t ! hash_ref (unat (ht_size ?t)) (name ?d)) @ [?d])"
    by blast
  from t0(2) rd have b': "buckets t' = [[], [\<lparr>obj_id = 1, name = ''a'', obj_value = 0\<rparr>, ?d], []]"
    by simp
  from t0(3) rd have s': "HashTable_search t' ''d'' = Inr [?d]" by simp
  from d t0(1) have "hashFunction t' ''d'' = hashFunction ?t ''d''" by blast
  with h have h2: "hashFunction t' ''d'' = Inr 1" by simp
  from h ra rd sa t0(1) b' s' h2 show ?thesis by blast
qed

subsection \<open>C8: searching for a key that is not there\<close>

text \<open>
  Claim C8. For every structure, a search whose key matches no stored record returns
  the empty sequence and is not an error; in particular the search in an empty ordered
  or balanced tree returns the empty sequence; and insert cannot fail.

  Let no record of \<open>data\<close> have the key \<open>k\<close>. Then the search for \<open>k\<close> returns the
  empty sequence in the ordered tree, in the balanced tree and in the hash table built
  from \<open>data\<close>; building them gives no error, and neither does one more insert, of any
  record \<open>obj\<close>. The hash table has at least one bucket. (The insert and the search of
  the ordered tree have no error to give.)
\<close>

theorem search_absent_key_is_empty:
  assumes "\<forall>obj \<in> set data. name obj \<noteq> k"
  shows "BST_search (BST_build data) k = [] \<and>
         (\<exists>t. RB_build data = Some (Inr t) \<and> RB_search t k = Some (Inr []) \<and>
              (\<exists>t'. RB_insert t obj = Some (Inr t'))) \<and>
         (sz \<noteq> 0 \<longrightarrow>
           (\<exists>h. HashTable_build sz data = Inr h \<and> HashTable_search h k = Inr [] \<and>
                (\<exists>h'. HashTable_insert h obj = Inr h'))) \<and>
         BST_search Null k = [] \<and> RB_search RedBlackTree_new k = Some (Inr [])"
proof -
  from assms have f: "filter (\<lambda>obj. name obj = k) data = []"
    by (auto simp: filter_empty_conv)
  from RB_build_inv[of data] obtain t T where
    r: "RB_build data = Some (Inr t)" "rb_inv data t T" by blast
  from rb_inv_insert[OF r(2), of obj] have "\<exists>t'. RB_insert t obj = Some (Inr t')" by blast
  moreover from r(2) have "RB_search t k = Some (Inr [])"
    using RB_search_sim[of t T k] by (simp add: rb_inv_def f)
  ultimately have 2: "\<exists>t. RB_build data = Some (Inr t) \<and> RB_search t k = Some (Inr []) \<and>
              (\<exists>t'. RB_insert t obj = Some (Inr t'))"
    using r(1) by blast
  have 3: "\<exists>h. HashTable_build sz data = Inr h \<and> HashTable_search h k = Inr [] \<and>
                (\<exists>h'. HashTable_insert h obj = Inr h')" if "sz \<noteq> 0"
  proof -
    from HashTable_build_inv[OF that, of data] obtain h where
      h: "HashTable_build sz data = Inr h" "ht_inv sz data h" by blast
    from ht_inv_insert[OF that h(2), of obj] ht_inv_search[OF that h(2), of k] h(1) f
    show ?thesis by auto
  qed
  have 5: "RB_search RedBlackTree_new k = Some (Inr [])"
    using RB_search_sim[of RedBlackTree_new Leaf k]
    by (simp add: RB_tree_def RedBlackTree_new_def)
  from 2 3 5 show ?thesis by (simp add: BST_build_search f)
qed

text \<open>For the example records and the key \<open>''c''\<close>.\<close>

theorem search_absent_key_is_empty_witness:
  "map name example_data = [''a'', ''b'', ''a''] \<and>
   BST_search (BST_build example_data) ''c'' = [] \<and>
   (\<exists>t. RB_build example_data = Some (Inr t) \<and> RB_search t ''c'' = Some (Inr []) \<and>
        (\<exists>t'. RB_insert t \<lparr>obj_id = 4, name = ''c'', obj_value = 0\<rparr> = Some (Inr t'))) \<and>
   (\<exists>h. HashTable_build 3 example_data = Inr h \<and> HashTable_search h ''c'' = Inr [] \<and>
        (\<exists>h'. HashTable_insert h \<lparr>obj_id = 4, name = ''c'', obj_value = 0\<rparr> = Inr h')) \<and>
   RB_search RedBlackTree_new ''c'' = Some (Inr [])"
proof -
  have "\<forall>obj \<in> set example_data. name obj \<noteq> ''c''" by (simp add: example_data_def)
  from search_absent_key_is_empty[OF this, of "\<lparr>obj_id = 4, name = ''c'', obj_value = 0\<rparr>" 3]
  show ?thesis by (simp add: example_data_def)
qed

subsection \<open>C9: the bucket index is in range\<close>

text \<open>
  Claim C9. For every bucket count of at least 1 and every key, \<^verbatim>\<open>hashFunction\<close>
  returns a value below the bucket count, so the index that insert and search use is
  within the bucket vector.

  The first part is for any table with a size other than zero; the second for the
  table built with \<open>sz\<close> buckets from any records, whose bucket vector has \<open>sz\<close> buckets.
\<close>

theorem hashFunction_in_range:
  "(ht_size t \<noteq> 0 \<longrightarrow> (\<exists>h. hashFunction t k = Inr h \<and> h < ht_size t)) \<and>
   (sz \<noteq> 0 \<longrightarrow>
     (\<exists>t' h. HashTable_build sz data = Inr t' \<and> hashFunction t' k = Inr h \<and>
        unat h < length (buckets t')))"
proof -
  have "\<exists>t' h. HashTable_build sz data = Inr t' \<and> hashFunction t' k = Inr h \<and>
        unat h < length (buckets t')" if nz: "sz \<noteq> 0"
  proof -
    from HashTable_build_inv[OF nz, of data] obtain t' where
      b: "HashTable_build sz data = Inr t'" "ht_inv sz data t'" by blast
    from b(2) have "ht_size t' = sz" "length (buckets t') = unat sz" by (simp_all add: ht_inv_def)
    with b(1) nz hidx_index[OF nz, of k] show ?thesis by (simp add: hashFunction_hidx)
  qed
  then show ?thesis by (auto simp: hashFunction_hidx hidx_less)
qed

text \<open>The key \<open>''b''\<close> and three buckets.\<close>

theorem hashFunction_in_range_witness:
  "hashFunction \<lparr>ht_size = 3, buckets = [[], [], []], collisionCount = 0\<rparr> ''b'' = Inr 2 \<and>
   (2 :: 64 word) < 3 \<and>
   (\<exists>t' h. HashTable_build 3 example_data = Inr t' \<and> hashFunction t' ''b'' = Inr h \<and>
      unat h < length (buckets t'))"
proof -
  have "hashFunction \<lparr>ht_size = 3, buckets = [[], [], []], collisionCount = 0\<rparr> ''b'' = Inr 2"
    by code_simp
  with hashFunction_in_range[of "\<lparr>ht_size = 3, buckets = [[], [], []], collisionCount = 0\<rparr>" "''b''" 3 example_data]
  show ?thesis by simp
qed

subsection \<open>C10: the grandparent in the fix-up\<close>

text \<open>
  Claim C10. In \<^verbatim>\<open>insertFix\<close>, whenever the loop body runs (the current node is not
  the root and its parent is \<^verbatim>\<open>RED\<close>), the grandparent pointer is not null, so every
  dereference of the grandparent and of the uncle in the body is of a valid node.

  In every state \<open>fix_state t n\<close> of the loop in which the loop condition holds, the
  parent \<open>p\<close> of \<open>n\<close> and the parent \<open>g\<close> of \<open>p\<close> are not null, \<open>g\<close> is a node of the
  store, and the loop body returns without an error, so that none of its dereferences
  was of a null or dangling pointer.
\<close>

theorem insertFix_grandparent_valid:
  assumes "fix_state t n" "insertFix_cond t n = Inr True"
  shows "\<exists>p g gn t' n'. get_parent t n = Inr (Some p) \<and> get_parent t (Some p) = Inr (Some g) \<and>
           load t (Some g) = Inr gn \<and> insertFix_body t n = Inr (t', n')"
proof -
  from fix_state_inv[OF assms(1)] obtain T path where
    inv: "RB_tree t (plug T path)" "fix_inv T path" "n = root_ptr T" by blast
  from inv(2) have TL: "T \<noteq> Leaf" by (auto simp: fix_inv_def)
  from insertFix_cond_sim[OF inv(1) TL] assms(2) have tr: "top_red path" by (simp add: inv(3))
  from inv(2) tr obtain dp p kp vp sp dg g kg vg u fs where
    p: "path = Fr dp p kp vp RED sp # Fr dg g kg vg BLACK u # fs"
    by (rule fix_inv_top_red)
  from TL obtain l a k vs c r where T: "T = Branch l a k vs c r" by (cases T) auto
  from load_focus[OF inv(1)[unfolded T p]] have 1: "get_parent t n = Inr (Some p)"
    by (simp add: get_parent_def inv(3) T)
  from inv(1) have "RB_tree t (plug (plug1 T (Fr dp p kp vp RED sp)) (Fr dg g kg vg BLACK u # fs))"
    by (simp add: p)
  from load_plug1[OF this] have 2: "get_parent t (Some p) = Inr (Some g)"
    by (simp add: get_parent_def)
  from inv(1) have "RB_tree t (plug (plug1 (plug1 T (Fr dp p kp vp RED sp)) (Fr dg g kg vg BLACK u)) fs)"
    by (simp add: p)
  from load_plug1[OF this] have 3: "\<exists>gn. load t (Some g) = Inr gn" by simp
  from insertFix_body_sim[OF inv(1,2) tr] have 4: "\<exists>t' n'. insertFix_body t n = Inr (t', n')"
    by (auto simp: inv(3))
  from 1 2 3 4 show ?thesis by blast
qed

text \<open>The state in which \<open>''c''\<close> has been hung below the \<^verbatim>\<open>RED\<close> node \<open>''b''\<close>.\<close>

theorem insertFix_grandparent_valid_witness:
  "fix_state example_attached (Some 2) \<and> insertFix_cond example_attached (Some 2) = Inr True \<and>
   get_parent example_attached (Some 2) = Inr (Some 1) \<and>
   get_parent example_attached (Some 1) = Inr (Some 0) \<and>
   (\<exists>gn t' n'. load example_attached (Some 0) = Inr gn \<and>
      insertFix_body example_attached (Some 2) = Inr (t', n'))"
proof -
  have c: "insertFix_cond example_attached (Some 2) = Inr True" by code_simp
  have p: "get_parent example_attached (Some 2) = Inr (Some 1)"
    "get_parent example_attached (Some 1) = Inr (Some 0)" by code_simp+
  from insertFix_grandparent_valid[OF example_attached_state c] p c example_attached_state
  show ?thesis by auto
qed

end
